theory Spec2Isabelle
  imports Main "HOL-Library.Word" "HOL-Library.Multiset"
begin

section \<open>Shared declarations\<close>

text \<open>
  The servers exchange fixed-layout headers with one client.  The header layouts, the
  opcode enumeration and the macro \<^verbatim>\<open>TSPEC_TO_DOUBLE\<close> come from
  \<^verbatim>\<open>common.h\<close>; the records below list the fields the servers read and write.
  \<^verbatim>\<open>uint64_t\<close> is a 64-bit word.  A \<^verbatim>\<open>size_t\<close> is a natural number whose
  increments are wrapped at \<open>2 ^ 64\<close> by \<open>size_t_wrap\<close>.  Allocation is assumed to
  succeed, as the code assumes (no result of malloc or realloc is checked).
\<close>

type_synonym u64 = "64 word"

record timespec =
  tv_sec :: int
  tv_nsec :: int

text \<open>Any opcode on the wire that is not one of the named enumerators is \<open>IMG_OTHER\<close>.\<close>

datatype img_opcode =
  IMG_REGISTER | IMG_ROT90CLKW | IMG_BLUR | IMG_SHARPEN | IMG_VERTEDGES | IMG_HORIZEDGES
  | IMG_RETRIEVE | IMG_OTHER

datatype resp_ack = RESP_COMPLETED | RESP_REJECTED

record response =
  req_id :: u64
  img_id :: u64
  ack :: resp_ack

record request =
  req_id :: u64
  req_timestamp :: timespec
  req_length :: timespec
  img_op :: img_opcode
  overwrite :: "8 word"
  img_id :: u64

datatype error = OutOfBounds | DivByZero | WouldBlock | AssertFailed | UseAfterFree

definition size_t_wrap :: "nat \<Rightarrow> nat" where
  "size_t_wrap n = n mod 2 ^ 64"

text \<open>\<^verbatim>\<open>realloc(p, n * sizeof *p)\<close>: the first cells are kept, fresh cells hold \<open>fill\<close>.\<close>

definition realloc_cells :: "'a \<Rightarrow> nat \<Rightarrow> 'a list \<Rightarrow> 'a list" where
  "realloc_cells fill n xs = take n xs @ replicate (n - length xs) fill"

section \<open>The image server (hw7, server_mimg.c)\<close>

record request_meta =
  request :: request
  receipt_timestamp :: timespec
  start_timestamp :: timespec
  completion_timestamp :: timespec

datatype queue_policy = QUEUE_FIFO | QUEUE_SJN

record queue =
  wr_pos :: nat
  rd_pos :: nat
  max_size :: nat
  available :: nat
  policy :: queue_policy
  requests :: "request_meta list"

record connection_params =
  queue_size :: nat
  workers :: nat
  queue_policy :: queue_policy

text \<open>
  A growable array of request ids, one per image: \<open>request_ids\<close> is the allocated block
  (\<open>capacity\<close> cells), of which the first \<open>count\<close> are in use.  Both counters stay far
  below \<open>2 ^ 64\<close> (the block is in memory), so they are plain naturals.
\<close>

record img_req_array =
  request_ids :: "u64 list"
  count :: nat
  capacity :: nat

text \<open>What goes out on the connection socket, and the lines printed on standard output
  (the fields in the order of the format string; the text of a \<^verbatim>\<open>%lf\<close> is not modelled).\<close>

datatype 'img sock_msg = Header response | Payload 'img

datatype trace_line =
  T_line nat u64 timespec img_opcode "8 word" u64 u64 timespec timespec timespec
  | Q_line "u64 list"
  | X_line u64 timespec timespec timespec

text \<open>
  The globals of the server and the queue of the connection.  \<open>queue_notify\<close> is the value
  of the counting semaphore.  The binary semaphores used as mutexes (\<^verbatim>\<open>queue_mutex\<close>,
  \<^verbatim>\<open>operation_mutex\<close>, \<^verbatim>\<open>arr_mutex\<close>, \<^verbatim>\<open>printf_mutex\<close>) bracket the code
  modelled by one function each, which therefore runs as one step.  The per-image semaphores
  \<^verbatim>\<open>img_semaphores\<close> decide when a worker may run, not what it computes, and are not part of
  this state; they and \<^verbatim>\<open>conn_socket_mutex\<close> have step models of their own below.
\<close>

record 'img server =
  the_queue :: queue
  queue_notify :: nat
  wait_op :: "img_req_array list"
  images :: "'img option list"
  image_counter :: u64
  sock :: "'img sock_msg list"
  stdout :: "trace_line list"

text \<open>The image library (imglib) is external: five pure functions on images.\<close>

record 'img img_lib =
  rotate90Clockwise :: "'img \<Rightarrow> 'img"
  blurImage :: "'img \<Rightarrow> 'img"
  sharpenImage :: "'img \<Rightarrow> 'img"
  detectVerticalEdges :: "'img \<Rightarrow> 'img"
  detectHorizontalEdges :: "'img \<Rightarrow> 'img"

subsection \<open>The bounded queue\<close>

text \<open>\<open>mem\<close> is the block malloc returned for the ring (its content is indeterminate).\<close>

definition queue_init :: "request_meta list \<Rightarrow> nat \<Rightarrow> queue_policy \<Rightarrow> queue" where
  "queue_init mem qsize pol =
     \<lparr>wr_pos = 0, rd_pos = 0, max_size = qsize, available = qsize,
      policy = pol, requests = mem\<rparr>"

text \<open>
  Lines 171 to 176 of \<^verbatim>\<open>add_to_queue\<close>: push a request id on the array of its image,
  doubling the block when it is full.  Fresh cells are written before they are read.
\<close>

definition img_arr_push :: "u64 \<Rightarrow> img_req_array \<Rightarrow> error + img_req_array" where
  "img_arr_push rid a =
     (let a1 = (if count a = capacity a
                then (let cap = (if capacity a = 0 then 1 else capacity a * 2)
                      in a\<lparr>request_ids := realloc_cells 0 cap (request_ids a), capacity := cap\<rparr>)
                else a)
      in if count a1 < length (request_ids a1)
         then Inr (a1\<lparr>request_ids := (request_ids a1)[count a1 := rid], count := count a1 + 1\<rparr>)
         else Inl OutOfBounds)"

text \<open>
  \<^verbatim>\<open>add_to_queue\<close> returns 1 when the queue is full and 0 otherwise.  A write outside
  the ring or outside \<^verbatim>\<open>wait_op\<close>, and a remainder by a zero \<open>max_size\<close>, are undefined
  in C: the model stops with an error there.
\<close>

definition add_to_queue :: "request_meta \<Rightarrow> 'img server \<Rightarrow> error + (int \<times> 'img server)" where
  "add_to_queue to_add s =
     (let q = the_queue s in
      if available q = 0 then Inr (1, s)
      else if length (requests q) \<le> wr_pos q then Inl OutOfBounds
      else if max_size q = 0 then Inl DivByZero
      else
        (let q1 = q\<lparr>wr_pos := size_t_wrap (wr_pos q + 1) mod max_size q,
                     available := available q - 1,
                     requests := (requests q)[wr_pos q := to_add]\<rparr>;
             i = unat (img_id (request to_add))
         in if length (wait_op s) \<le> i then Inl OutOfBounds
            else
              (case img_arr_push (request.req_id (request to_add)) (wait_op s ! i) of
                 Inl e \<Rightarrow> Inl e
               | Inr a \<Rightarrow>
                   Inr (0, s\<lparr>the_queue := q1, queue_notify := queue_notify s + 1,
                              wait_op := (wait_op s)[i := a]\<rparr>))))"

text \<open>
  \<^verbatim>\<open>get_from_queue\<close> first waits on \<^verbatim>\<open>queue_notify\<close>: with the semaphore at 0 the
  caller does not return (\<open>WouldBlock\<close>).  The policy field is not read.
\<close>

definition get_from_queue :: "'img server \<Rightarrow> error + (request_meta \<times> 'img server)" where
  "get_from_queue s =
     (let q = the_queue s in
      if queue_notify s = 0 then Inl WouldBlock
      else if length (requests q) \<le> rd_pos q then Inl OutOfBounds
      else if max_size q = 0 then Inl DivByZero
      else Inr (requests q ! rd_pos q,
                s\<lparr>the_queue := q\<lparr>rd_pos := size_t_wrap (rd_pos q + 1) mod max_size q,
                                   available := size_t_wrap (available q + 1)\<rparr>,
                   queue_notify := queue_notify s - 1\<rparr>))"

text \<open>\<^verbatim>\<open>a - b\<close> on \<^verbatim>\<open>size_t\<close>.\<close>

definition size_t_sub :: "nat \<Rightarrow> nat \<Rightarrow> nat" where
  "size_t_sub a b = (a + 2 ^ 64 - b mod 2 ^ 64) mod 2 ^ 64"

text \<open>
  The loop of \<^verbatim>\<open>dump_queue_status\<close>: \<open>i\<close> is the running index, the last argument the
  number of entries still to print.
\<close>

fun dump_ids :: "queue \<Rightarrow> nat \<Rightarrow> nat \<Rightarrow> error + u64 list" where
  "dump_ids q i 0 = Inr []"
| "dump_ids q i (Suc n) =
     (if length (requests q) \<le> i then Inl OutOfBounds
      else if max_size q = 0 then Inl DivByZero
      else (case dump_ids q (size_t_wrap (i + 1) mod max_size q) n of
              Inl e \<Rightarrow> Inl e
            | Inr ids \<Rightarrow> Inr (request.req_id (request (requests q ! i)) # ids)))"

definition dump_queue_status :: "'img server \<Rightarrow> error + 'img server" where
  "dump_queue_status s =
     (let q = the_queue s in
      case dump_ids q (rd_pos q) (size_t_sub (max_size q) (available q)) of
        Inl e \<Rightarrow> Inl e
      | Inr ids \<Rightarrow> Inr (s\<lparr>stdout := stdout s @ [Q_line ids]\<rparr>))"

subsection \<open>The image store\<close>

text \<open>
  \<^verbatim>\<open>register_new_image\<close>, lines 238 to 259, between the wait and the post of
  \<^verbatim>\<open>arr_mutex\<close>: \<open>new_img\<close> is what \<^verbatim>\<open>recvImage\<close> returned (NULL is \<open>None\<close>),
  \<open>fill\<close> the indeterminate content of the cells realloc adds to \<^verbatim>\<open>wait_op\<close>.  The
  index \<^verbatim>\<open>image_counter - 1\<close> is outside both blocks when the counter has wrapped to 0.
\<close>

definition register_new_image_locked ::
  "img_req_array \<Rightarrow> 'img option \<Rightarrow> 'img server \<Rightarrow> error + 'img server" where
  "register_new_image_locked fill new_img s =
     (let c = image_counter s + 1;
          imgs = realloc_cells None (unat c) (images s);
          wo = realloc_cells fill (unat c) (wait_op s);
          i = unat (c - 1)
      in if length wo \<le> i \<or> length imgs \<le> i then Inl OutOfBounds
         else Inr (s\<lparr>image_counter := c,
                     images := imgs[i := new_img],
                     wait_op := wo[i := \<lparr>request_ids = [], count = 0, capacity = 0\<rparr>]\<rparr>))"

text \<open>
  Lines 261 to 268, after \<^verbatim>\<open>arr_mutex\<close> was posted: the response.  Line 263 reads
  \<^verbatim>\<open>image_counter\<close> again, as it is at that moment.
\<close>

definition register_new_image_reply :: "request \<Rightarrow> 'img server \<Rightarrow> 'img server" where
  "register_new_image_reply rq s =
     s\<lparr>sock := sock s @ [Header \<lparr>response.req_id = request.req_id rq,
                                  response.img_id = image_counter s - 1,
                                  ack = RESP_COMPLETED\<rparr>]\<rparr>"

text \<open>
  The whole call, when no worker takes a step between line 259 and line 263.  The step
  model of the turn gate below runs the two parts as two steps of the dispatcher.
\<close>

definition register_new_image ::
  "img_req_array \<Rightarrow> 'img option \<Rightarrow> request \<Rightarrow> 'img server \<Rightarrow> error + 'img server" where
  "register_new_image fill new_img rq s =
     (case register_new_image_locked fill new_img s of
        Inl e \<Rightarrow> Inl e
      | Inr s1 \<Rightarrow> Inr (register_new_image_reply rq s1))"

text \<open>The switch of \<^verbatim>\<open>worker_main\<close> (lines 308 to 324); it has no default case.\<close>

definition apply_img_op :: "'img img_lib \<Rightarrow> img_opcode \<Rightarrow> 'img \<Rightarrow> 'img" where
  "apply_img_op lib opc im =
     (case opc of
        IMG_ROT90CLKW \<Rightarrow> rotate90Clockwise lib im
      | IMG_BLUR \<Rightarrow> blurImage lib im
      | IMG_SHARPEN \<Rightarrow> sharpenImage lib im
      | IMG_VERTEDGES \<Rightarrow> detectVerticalEdges lib im
      | IMG_HORIZEDGES \<Rightarrow> detectHorizontalEdges lib im
      | _ \<Rightarrow> im)"

text \<open>
  Lines 326 to 337 of \<^verbatim>\<open>worker_main\<close>: the result is stored under \<^verbatim>\<open>arr_mutex\<close>,
  in place or in a new slot; the identifier of the slot is returned.
\<close>

definition worker_publish :: "request \<Rightarrow> 'img \<Rightarrow> 'img server \<Rightarrow> error + (u64 \<times> 'img server)" where
  "worker_publish r im s =
     (if img_op r \<noteq> IMG_RETRIEVE then
        (if overwrite r \<noteq> 0 then
           (if length (images s) \<le> unat (request.img_id r) then Inl OutOfBounds
            else Inr (request.img_id r,
                      s\<lparr>images := (images s)[unat (request.img_id r) := Some im]\<rparr>))
         else
           (let new_id = image_counter s;
                c = image_counter s + 1;
                imgs = realloc_cells None (unat c) (images s)
            in if length imgs \<le> unat new_id then Inl OutOfBounds
               else Inr (new_id, s\<lparr>image_counter := c, images := imgs[unat new_id := Some im]\<rparr>)))
      else Inr (request.img_id r, s))"

subsection \<open>The connection handler\<close>

text \<open>
  What one turn of the loop of \<^verbatim>\<open>handle_connection\<close> takes from outside: the header
  \<^verbatim>\<open>recv\<close> delivered (a whole header), the clock readings, the image \<^verbatim>\<open>recvImage\<close>
  returns, and the indeterminate content of the local \<^verbatim>\<open>resp\<close> and of fresh
  \<^verbatim>\<open>wait_op\<close> cells.
\<close>

record 'img dispatch_io =
  rx_bytes :: request
  clk_receipt :: timespec
  clk_start :: timespec
  clk_completion :: timespec
  rx_image :: "'img option"
  resp_uninit :: response
  wait_op_uninit :: img_req_array

text \<open>
  Lines 550 to 562, after \<^verbatim>\<open>register_new_image\<close> returned: the completion timestamp,
  the trace line, which reads \<^verbatim>\<open>image_counter\<close> once more, and the dump of the queue.
\<close>

definition handle_register_trace ::
  "nat \<Rightarrow> timespec \<Rightarrow> request_meta \<Rightarrow> 'img server \<Rightarrow> error + (request_meta \<times> 'img server)" where
  "handle_register_trace nworkers t_done req1 s =
     (let req2 = req1\<lparr>completion_timestamp := t_done\<rparr>;
          r = request req1;
          s2 = s\<lparr>stdout := stdout s @
                     [T_line nworkers (request.req_id r) (req_timestamp r)
                        (img_op r) (overwrite r) (request.img_id r)
                        (image_counter s - 1)
                        (receipt_timestamp req2) (start_timestamp req2)
                        (completion_timestamp req2)]\<rparr>
      in case dump_queue_status s2 of
           Inl e \<Rightarrow> Inl e
         | Inr s3 \<Rightarrow> Inr (req2, s3))"

text \<open>
  One turn of the loop with \<^verbatim>\<open>in_bytes > 0\<close>, when no worker takes a step inside a
  registration.  \<open>req0\<close> is the buffer \<^verbatim>\<open>req\<close> as the previous turn left it.  On
  rejection only \<^verbatim>\<open>req_id\<close> and \<^verbatim>\<open>ack\<close> of the local \<^verbatim>\<open>resp\<close> are assigned
  before it is sent.
\<close>

definition handle_request ::
  "nat \<Rightarrow> 'img dispatch_io \<Rightarrow> request_meta \<Rightarrow> 'img server \<Rightarrow> error + (request_meta \<times> 'img server)" where
  "handle_request nworkers io req0 s =
     (let rq = req0\<lparr>request := rx_bytes io, receipt_timestamp := clk_receipt io\<rparr>;
          r = request rq
      in if img_op r = IMG_REGISTER then
           (case register_new_image (wait_op_uninit io) (rx_image io) r s of
              Inl e \<Rightarrow> Inl e
            | Inr s1 \<Rightarrow>
                handle_register_trace nworkers (clk_completion io)
                  (rq\<lparr>start_timestamp := clk_start io\<rparr>) s1)
         else
           (case add_to_queue rq s of
              Inl e \<Rightarrow> Inl e
            | Inr (res, s1) \<Rightarrow>
                if res \<noteq> 0 then
                  (let resp = (resp_uninit io)\<lparr>response.req_id := request.req_id r,
                                                ack := RESP_REJECTED\<rparr>
                   in Inr (rq, s1\<lparr>sock := sock s1 @ [Header resp],
                                    stdout := stdout s1 @
                                      [X_line (request.req_id r) (req_timestamp r)
                                         (req_length r) (receipt_timestamp rq)]\<rparr>))
                else Inr (rq, s1)))"

subsection \<open>Command line\<close>

text \<open>
  \<^verbatim>\<open>getopt\<close> hands \<^verbatim>\<open>main\<close> the options one by one; \<open>strtol\<close> stands for the
  library function in base 10.  An option \<^verbatim>\<open>getopt\<close> does not know prints the usage
  string and the loop goes on.
\<close>

datatype cli_opt = Opt_q string | Opt_w string | Opt_p string | Opt_unknown

datatype exit_code = EXIT_SUCCESS | EXIT_FAILURE

definition size_t_of_long :: "int \<Rightarrow> nat" where
  "size_t_of_long v = nat (v mod 2 ^ 64)"

fun parse_opts ::
  "(string \<Rightarrow> int) \<Rightarrow> cli_opt list \<Rightarrow> connection_params \<Rightarrow> exit_code + connection_params" where
  "parse_opts strtol [] cp = Inr cp"
| "parse_opts strtol (Opt_q a # os) cp =
     parse_opts strtol os (cp\<lparr>queue_size := size_t_of_long (strtol a)\<rparr>)"
| "parse_opts strtol (Opt_w a # os) cp =
     parse_opts strtol os (cp\<lparr>workers := size_t_of_long (strtol a)\<rparr>)"
| "parse_opts strtol (Opt_p a # os) cp =
     (if a = ''FIFO'' then parse_opts strtol os (cp\<lparr>queue_policy := QUEUE_FIFO\<rparr>)
      else Inl EXIT_FAILURE)"
| "parse_opts strtol (Opt_unknown # os) cp = parse_opts strtol os cp"

text \<open>\<^verbatim>\<open>main\<close> up to the creation of the socket: the parameters of the connection and
  the port, or the exit code.  The port is stored in an \<^verbatim>\<open>in_port_t\<close>, 16 bits without
  sign.\<close>

definition in_port_t_of_long :: "int \<Rightarrow> nat" where
  "in_port_t_of_long v = nat (v mod 2 ^ 16)"

definition main_args ::
  "(string \<Rightarrow> int) \<Rightarrow> cli_opt list \<Rightarrow> string list \<Rightarrow> exit_code + (connection_params \<times> nat)" where
  "main_args strtol opts positional =
     (case parse_opts strtol opts
             \<lparr>queue_size = 0, workers = 1, queue_policy = QUEUE_FIFO\<rparr> of
        Inl e \<Rightarrow> Inl e
      | Inr cp \<Rightarrow>
          if queue_size cp = 0 then Inl EXIT_FAILURE
          else (case positional of
                  [] \<Rightarrow> Inl EXIT_FAILURE
                | port # _ \<Rightarrow> Inr (cp, in_port_t_of_long (strtol port))))"

subsection \<open>Runs of the queue and of the store\<close>

text \<open>Admissions one after the other, with the return codes; then \<open>n\<close> extractions.\<close>

fun admit_all :: "request_meta list \<Rightarrow> 'img server \<Rightarrow> error + (int list \<times> 'img server)" where
  "admit_all [] s = Inr ([], s)"
| "admit_all (m # ms) s =
     (case add_to_queue m s of
        Inl e \<Rightarrow> Inl e
      | Inr (res, s1) \<Rightarrow>
          (case admit_all ms s1 of
             Inl e \<Rightarrow> Inl e
           | Inr (rs, s2) \<Rightarrow> Inr (res # rs, s2)))"

fun extract_n :: "nat \<Rightarrow> 'img server \<Rightarrow> error + (request_meta list \<times> 'img server)" where
  "extract_n 0 s = Inr ([], s)"
| "extract_n (Suc n) s =
     (case get_from_queue s of
        Inl e \<Rightarrow> Inl e
      | Inr (m, s1) \<Rightarrow>
          (case extract_n n s1 of
             Inl e \<Rightarrow> Inl e
           | Inr (ms, s2) \<Rightarrow> Inr (m # ms, s2)))"

text \<open>
  The two places that store an image, in any order: a registration (lines 238 to 259) and
  the publication of a worker's result (lines 326 to 337), each between the wait and the
  post of \<^verbatim>\<open>arr_mutex\<close>.  A run logs every assignment of an identifier: the length of
  the store just before, the identifier, the length just after.
\<close>

datatype 'img store_op = Store_register "'img option" | Store_publish request 'img

fun store_step ::
  "img_req_array \<Rightarrow> 'img store_op \<Rightarrow> 'img server \<Rightarrow> error + (u64 option \<times> 'img server)" where
  "store_step fill (Store_register new_img) s =
     (case register_new_image_locked fill new_img s of
        Inl e \<Rightarrow> Inl e
      | Inr s1 \<Rightarrow> Inr (Some (image_counter s1 - 1), s1))"
| "store_step fill (Store_publish r im) s =
     (case worker_publish r im s of
        Inl e \<Rightarrow> Inl e
      | Inr (out_id, s1) \<Rightarrow>
          Inr (if img_op r \<noteq> IMG_RETRIEVE \<and> overwrite r = 0 then Some out_id else None, s1))"

fun store_run ::
  "img_req_array \<Rightarrow> 'img store_op list \<Rightarrow> 'img server
     \<Rightarrow> error + ((nat \<times> u64 \<times> nat) list \<times> 'img server)" where
  "store_run fill [] s = Inr ([], s)"
| "store_run fill (x # xs) s =
     (case store_step fill x s of
        Inl e \<Rightarrow> Inl e
      | Inr (a, s1) \<Rightarrow>
          (case store_run fill xs s1 of
             Inl e \<Rightarrow> Inl e
           | Inr (lg, s2) \<Rightarrow>
               Inr ((case a of
                       None \<Rightarrow> []
                     | Some i \<Rightarrow> [(length (images s), i, length (images s1))]) @ lg, s2)))"

subsection \<open>The connection socket, step by step\<close>

text \<open>
  Lines 347 to 360 of \<^verbatim>\<open>worker_main\<close>, one statement per step, for workers that run
  side by side: wait on \<^verbatim>\<open>conn_socket_mutex\<close> (347), send the header (348), post (349),
  test the opcode (352), wait again (353), send the image (354), post (359).  A sender
  carries the header, the opcode and the image its worker computed.  A step of sender \<open>i\<close>
  is \<open>None\<close> when the sender waits on the semaphore at 0, has finished, or does not exist.
\<close>

datatype send_pc = L347 | L348 | L349 | L352 | L353 | L354 | L359 | L362

record 'img sender =
  at_pc :: send_pc
  hdr :: response
  opcode :: img_opcode
  payload :: 'img

record 'img wire_state =
  conn_socket_mutex :: nat
  wire :: "'img sock_msg list"
  senders :: "'img sender list"

definition goto :: "nat \<Rightarrow> send_pc \<Rightarrow> 'img wire_state \<Rightarrow> 'img wire_state option" where
  "goto i l st = Some (st\<lparr>senders := (senders st)[i := (senders st ! i)\<lparr>at_pc := l\<rparr>]\<rparr>)"

definition sender_step :: "nat \<Rightarrow> 'img wire_state \<Rightarrow> 'img wire_state option" where
  "sender_step i st =
     (if length (senders st) \<le> i then None
      else
        (let t = senders st ! i in
         case at_pc t of
           L347 \<Rightarrow> if conn_socket_mutex st = 0 then None
                   else goto i L348 (st\<lparr>conn_socket_mutex := conn_socket_mutex st - 1\<rparr>)
         | L348 \<Rightarrow> goto i L349 (st\<lparr>wire := wire st @ [Header (hdr t)]\<rparr>)
         | L349 \<Rightarrow> goto i L352 (st\<lparr>conn_socket_mutex := conn_socket_mutex st + 1\<rparr>)
         | L352 \<Rightarrow> goto i (if opcode t = IMG_RETRIEVE then L353 else L362) st
         | L353 \<Rightarrow> if conn_socket_mutex st = 0 then None
                   else goto i L354 (st\<lparr>conn_socket_mutex := conn_socket_mutex st - 1\<rparr>)
         | L354 \<Rightarrow> goto i L359 (st\<lparr>wire := wire st @ [Payload (payload t)]\<rparr>)
         | L359 \<Rightarrow> goto i L362 (st\<lparr>conn_socket_mutex := conn_socket_mutex st + 1\<rparr>)
         | L362 \<Rightarrow> None))"

text \<open>A schedule names the sender that moves at each step.\<close>

fun run_schedule :: "nat list \<Rightarrow> 'img wire_state \<Rightarrow> 'img wire_state option" where
  "run_schedule [] st = Some st"
| "run_schedule (i # sched) st =
     (case sender_step i st of None \<Rightarrow> None | Some st1 \<Rightarrow> run_schedule sched st1)"

subsection \<open>The turn gate, step by step\<close>

text \<open>
  The dispatcher and the workers side by side, for the part of the state that decides whose
  turn it is: the queue, the table \<^verbatim>\<open>wait_op\<close>, the semaphores
  \<^verbatim>\<open>img_semaphores\<close> and the image store.  A worker stands before one of these
  lines of \<^verbatim>\<open>worker_main\<close>: the call of \<^verbatim>\<open>get_from_queue\<close> (282, with the
  assignment of \<^verbatim>\<open>img_id\<close> at 285), the wait on the semaphore of the image (289), the
  address of its cell of \<^verbatim>\<open>wait_op\<close> (290), the test of the loop (291), the post (292)
  and the wait (293) of its body, the removal of the first request id under
  \<^verbatim>\<open>operation_mutex\<close> (296 to 299), the start timestamp (301), the read of the image
  and the operation (304 to 324), the store of the result under \<^verbatim>\<open>arr_mutex\<close> (326 to
  337), the post of the semaphore (338), and the rest of the body (340 to 371), of which
  only the completion timestamp is kept here.

  The dispatcher stands before one of these lines: the \<^verbatim>\<open>recv\<close> of
  \<^verbatim>\<open>handle_connection\<close> (535), from where it admits or rejects a request, or runs
  \<^verbatim>\<open>register_new_image\<close> up to the post of \<^verbatim>\<open>arr_mutex\<close> (238 to 259); the
  response of \<^verbatim>\<open>register_new_image\<close> (261 to 268); and the completion timestamp of a
  registration with its trace line (550 to 562).

  A stretch of code bracketed by a mutex is one step, and so is the turn of the dispatcher
  on a request that is not a registration; every other statement is a step of its own.  The
  flag \<^verbatim>\<open>worker_done\<close> is 0 as long as the connection is open.
\<close>

datatype gate_pc =
  L282 | L289 | L290 | L291 | L292 | L293 | L296 | L301 | L304 | L326 | L338 | L340

datatype conn_pc = L535 | L261 | L550

text \<open>
  The locals of a worker: \<^verbatim>\<open>req\<close>, \<^verbatim>\<open>img_id\<close>, \<^verbatim>\<open>img_array\<close> and \<^verbatim>\<open>img\<close>.
  A pointer into \<^verbatim>\<open>wait_op\<close> is the block it points into and an index.
\<close>

record 'img gate_worker =
  at_line :: gate_pc
  req_w :: request_meta
  img_id_w :: u64
  img_array_w :: "nat \<times> nat"
  img_w :: "'img option"

text \<open>
  The globals, the line and the buffer \<^verbatim>\<open>req\<close> of the dispatcher, and the workers.
  \<open>wait_op_block\<close> names the block \<^verbatim>\<open>wait_op\<close> points to at present.
\<close>

record 'img gate_state =
  srv :: "'img server"
  img_semaphores :: "nat list"
  wait_op_block :: nat
  conn_line :: conn_pc
  conn_req :: request_meta
  gate_workers :: "'img gate_worker list"

text \<open>
  What a run shows: an image was registered under an id, \<^verbatim>\<open>add_to_queue\<close> admitted a
  request, a worker stamped the start of a request (the entry carries the stamp).  What moves
  next: the dispatcher, with what it may take from outside at its line, the indeterminate
  value of a fresh semaphore cell and whether realloc moved \<^verbatim>\<open>wait_op\<close>; or worker
  \<open>i\<close>, with the reading of the clock at that moment.
\<close>

datatype gate_event = Registered u64 | Admitted request_meta | Started request_meta

datatype 'img gate_move = Dispatch "'img dispatch_io" nat bool | Work nat timespec

text \<open>
  \<^verbatim>\<open>sem_wait\<close> and \<^verbatim>\<open>sem_post\<close> on cell \<open>i\<close> of \<^verbatim>\<open>img_semaphores\<close>.  A wait
  on a semaphore at 0 does not return (\<open>WouldBlock\<close>): a schedule lists the steps that are
  taken.  A semaphore keeps its value when realloc moves the block.
\<close>

definition sem_wait :: "nat \<Rightarrow> nat list \<Rightarrow> error + nat list" where
  "sem_wait i sems =
     (if length sems \<le> i then Inl OutOfBounds
      else if sems ! i = 0 then Inl WouldBlock
      else Inr (sems[i := sems ! i - 1]))"

definition sem_post :: "nat \<Rightarrow> nat list \<Rightarrow> error + nat list" where
  "sem_post i sems =
     (if length sems \<le> i then Inl OutOfBounds else Inr (sems[i := sems ! i + 1]))"

text \<open>
  An access through \<^verbatim>\<open>img_array\<close>.  Once realloc has moved \<^verbatim>\<open>wait_op\<close> the block
  the pointer was taken from is freed.
\<close>

definition deref_img_array :: "'img gate_state \<Rightarrow> nat \<times> nat \<Rightarrow> error + img_req_array" where
  "deref_img_array s p =
     (if fst p \<noteq> wait_op_block s then Inl UseAfterFree
      else if length (wait_op (srv s)) \<le> snd p then Inl OutOfBounds
      else Inr (wait_op (srv s) ! snd p))"

text \<open>The condition of the loop at line 291.\<close>

definition not_my_turn :: "u64 \<Rightarrow> img_req_array \<Rightarrow> error + bool" where
  "not_my_turn rid a =
     (if 0 < count a
      then (if request_ids a = [] then Inl OutOfBounds else Inr (request_ids a ! 0 \<noteq> rid))
      else Inr False)"

text \<open>
  Lines 297 and 298: \<^verbatim>\<open>memmove\<close> of \<^verbatim>\<open>count - 1\<close> cells one place down, then
  \<^verbatim>\<open>count--\<close>.  With \<^verbatim>\<open>count\<close> at 0 the size wraps to \<open>2 ^ 64 - 8\<close> bytes.
\<close>

definition img_arr_pop :: "img_req_array \<Rightarrow> error + img_req_array" where
  "img_arr_pop a =
     (if count a = 0 \<or> length (request_ids a) < count a then Inl OutOfBounds
      else Inr (a\<lparr>request_ids := take (count a - 1) (tl (request_ids a)) @
                                   drop (count a - 1) (request_ids a),
                  count := count a - 1\<rparr>))"

definition set_worker :: "nat \<Rightarrow> 'img gate_worker \<Rightarrow> 'img gate_state \<Rightarrow> 'img gate_state" where
  "set_worker i w s = s\<lparr>gate_workers := (gate_workers s)[i := w]\<rparr>"

text \<open>One step of worker \<open>i\<close>, with the events it shows.\<close>

definition worker_step ::
  "'img img_lib \<Rightarrow> nat \<Rightarrow> timespec \<Rightarrow> 'img gate_state \<Rightarrow> error + ('img gate_state \<times> gate_event list)" where
  "worker_step lib i now s =
     (if length (gate_workers s) \<le> i then Inl WouldBlock
      else
        (let w = gate_workers s ! i; r = request (req_w w); k = unat (img_id_w w) in
         case at_line w of
           L282 \<Rightarrow>
             (case get_from_queue (srv s) of
                Inl e \<Rightarrow> Inl e
              | Inr (m, srv1) \<Rightarrow>
                  Inr (set_worker i (w\<lparr>at_line := L289, req_w := m,
                                        img_id_w := request.img_id (request m)\<rparr>)
                         (s\<lparr>srv := srv1\<rparr>), []))
         | L289 \<Rightarrow>
             (case sem_wait k (img_semaphores s) of
                Inl e \<Rightarrow> Inl e
              | Inr sems \<Rightarrow> Inr (set_worker i (w\<lparr>at_line := L290\<rparr>) (s\<lparr>img_semaphores := sems\<rparr>), []))
         | L290 \<Rightarrow>
             Inr (set_worker i (w\<lparr>at_line := L291, img_array_w := (wait_op_block s, k)\<rparr>) s, [])
         | L291 \<Rightarrow>
             (case deref_img_array s (img_array_w w) of
                Inl e \<Rightarrow> Inl e
              | Inr a \<Rightarrow>
                  (case not_my_turn (request.req_id r) a of
                     Inl e \<Rightarrow> Inl e
                   | Inr b \<Rightarrow> Inr (set_worker i (w\<lparr>at_line := (if b then L292 else L296)\<rparr>) s, [])))
         | L292 \<Rightarrow>
             (case sem_post k (img_semaphores s) of
                Inl e \<Rightarrow> Inl e
              | Inr sems \<Rightarrow> Inr (set_worker i (w\<lparr>at_line := L293\<rparr>) (s\<lparr>img_semaphores := sems\<rparr>), []))
         | L293 \<Rightarrow>
             (case sem_wait k (img_semaphores s) of
                Inl e \<Rightarrow> Inl e
              | Inr sems \<Rightarrow> Inr (set_worker i (w\<lparr>at_line := L291\<rparr>) (s\<lparr>img_semaphores := sems\<rparr>), []))
         | L296 \<Rightarrow>
             (case deref_img_array s (img_array_w w) of
                Inl e \<Rightarrow> Inl e
              | Inr a \<Rightarrow>
                  (case img_arr_pop a of
                     Inl e \<Rightarrow> Inl e
                   | Inr a1 \<Rightarrow>
                       Inr (set_worker i (w\<lparr>at_line := L301\<rparr>)
                              (s\<lparr>srv := (srv s)\<lparr>wait_op := (wait_op (srv s))[snd (img_array_w w) := a1]\<rparr>\<rparr>),
                            [])))
         | L301 \<Rightarrow>
             (let m = (req_w w)\<lparr>start_timestamp := now\<rparr>
              in Inr (set_worker i (w\<lparr>at_line := L304, req_w := m\<rparr>) s, [Started m]))
         | L304 \<Rightarrow>
             (if length (images (srv s)) \<le> k then Inl OutOfBounds
              else
                (case images (srv s) ! k of
                   None \<Rightarrow> Inl AssertFailed
                 | Some im \<Rightarrow>
                     Inr (set_worker i (w\<lparr>at_line := L326,
                                           img_w := Some (apply_img_op lib (img_op r) im)\<rparr>) s, [])))
         | L326 \<Rightarrow>
             (case img_w w of
                None \<Rightarrow> Inl AssertFailed
              | Some im \<Rightarrow>
                  (case worker_publish r im (srv s) of
                     Inl e \<Rightarrow> Inl e
                   | Inr (out_id, srv1) \<Rightarrow>
                       Inr (set_worker i (w\<lparr>at_line := L338, img_id_w := out_id\<rparr>)
                              (s\<lparr>srv := srv1\<rparr>), [])))
         | L338 \<Rightarrow>
             (case sem_post k (img_semaphores s) of
                Inl e \<Rightarrow> Inl e
              | Inr sems \<Rightarrow> Inr (set_worker i (w\<lparr>at_line := L340\<rparr>) (s\<lparr>img_semaphores := sems\<rparr>), []))
         | L340 \<Rightarrow>
             Inr (set_worker i (w\<lparr>at_line := L282,
                                   req_w := (req_w w)\<lparr>completion_timestamp := now\<rparr>\<rparr>) s, [])))"

text \<open>
  One step of the dispatcher.  At line 535 it receives a header: a registration runs to the
  post of \<^verbatim>\<open>arr_mutex\<close> (with the two statements on \<^verbatim>\<open>img_semaphores\<close>, lines 243 and
  258, that the record of the server leaves out), any other request takes the rest of
  \<open>handle_request\<close>.  The next two steps of a registration send the response and print
  the trace line; each reads \<^verbatim>\<open>image_counter\<close> as the workers have left it by then.
\<close>

definition gate_dispatch ::
  "'img dispatch_io \<Rightarrow> nat \<Rightarrow> bool \<Rightarrow> 'img gate_state \<Rightarrow> error + ('img gate_state \<times> gate_event list)" where
  "gate_dispatch io sem_uninit moved s =
     (case conn_line s of
        L535 \<Rightarrow>
          if img_op (rx_bytes io) = IMG_REGISTER then
            (case register_new_image_locked (wait_op_uninit io) (rx_image io) (srv s) of
               Inl e \<Rightarrow> Inl e
             | Inr srv1 \<Rightarrow>
                 (let new_id = image_counter srv1 - 1;
                      sems = realloc_cells sem_uninit (unat (image_counter srv1)) (img_semaphores s)
                  in if length sems \<le> unat new_id then Inl OutOfBounds
                     else Inr (s\<lparr>srv := srv1,
                                 conn_line := L261,
                                 conn_req := (conn_req s)\<lparr>request := rx_bytes io,
                                                           receipt_timestamp := clk_receipt io,
                                                           start_timestamp := clk_start io\<rparr>,
                                 img_semaphores := sems[unat new_id := 1],
                                 wait_op_block :=
                                   (if moved then wait_op_block s + 1 else wait_op_block s)\<rparr>,
                               [Registered new_id])))
          else
            (case handle_request (length (gate_workers s)) io (conn_req s) (srv s) of
               Inl e \<Rightarrow> Inl e
             | Inr (rq, srv1) \<Rightarrow>
                 Inr (s\<lparr>srv := srv1, conn_req := rq\<rparr>,
                      if available (the_queue (srv s)) = 0 then [] else [Admitted rq]))
      | L261 \<Rightarrow>
          Inr (s\<lparr>srv := register_new_image_reply (request (conn_req s)) (srv s),
                 conn_line := L550\<rparr>, [])
      | L550 \<Rightarrow>
          (case handle_register_trace (length (gate_workers s)) (clk_completion io)
                  (conn_req s) (srv s) of
             Inl e \<Rightarrow> Inl e
           | Inr (rq, srv1) \<Rightarrow> Inr (s\<lparr>srv := srv1, conn_req := rq, conn_line := L535\<rparr>, [])))"

definition gate_step ::
  "'img img_lib \<Rightarrow> 'img gate_move \<Rightarrow> 'img gate_state \<Rightarrow> error + ('img gate_state \<times> gate_event list)" where
  "gate_step lib mv s =
     (case mv of
        Dispatch io sem_uninit moved \<Rightarrow> gate_dispatch io sem_uninit moved s
      | Work i now \<Rightarrow> worker_step lib i now s)"

text \<open>A run along a schedule, with the events in the order they happen.\<close>

fun gate_run ::
  "'img img_lib \<Rightarrow> 'img gate_move list \<Rightarrow> 'img gate_state \<Rightarrow> error + ('img gate_state \<times> gate_event list)" where
  "gate_run lib [] s = Inr (s, [])"
| "gate_run lib (mv # sched) s =
     (case gate_step lib mv s of
        Inl e \<Rightarrow> Inl e
      | Inr (s1, ev) \<Rightarrow>
          (case gate_run lib sched s1 of
             Inl e \<Rightarrow> Inl e
           | Inr (s2, tr) \<Rightarrow> Inr (s2, ev @ tr)))"

text \<open>
  The state when \<^verbatim>\<open>handle_connection\<close> enters its loop: an empty queue on the block
  \<open>mem\<close>, no image, the dispatcher before its first \<^verbatim>\<open>recv\<close> and the workers before
  their first \<^verbatim>\<open>get_from_queue\<close>.  \<open>req0\<close>
  and \<open>w0\<close> are the indeterminate contents of the buffer of the dispatcher and of the
  locals of a worker.
\<close>

definition gate_init ::
  "request_meta list \<Rightarrow> connection_params \<Rightarrow> request_meta \<Rightarrow> 'img gate_worker \<Rightarrow> 'img gate_state" where
  "gate_init mem conn_params req0 w0 =
     \<lparr>srv = \<lparr>the_queue = queue_init mem (queue_size conn_params) (queue_policy conn_params),
             queue_notify = 0, wait_op = [], images = [], image_counter = 0,
             sock = [], stdout = []\<rparr>,
      img_semaphores = [],
      wait_op_block = 0,
      conn_line = L535,
      conn_req = req0,
      gate_workers = replicate (workers conn_params) (w0\<lparr>at_line := L282\<rparr>)\<rparr>"

text \<open>The requests admitted and the requests started in a run, in order.\<close>

fun admitted :: "gate_event list \<Rightarrow> request_meta list" where
  "admitted [] = []"
| "admitted (Admitted m # tr) = m # admitted tr"
| "admitted (_ # tr) = admitted tr"

fun started :: "gate_event list \<Rightarrow> request_meta list" where
  "started [] = []"
| "started (Started m # tr) = m # started tr"
| "started (_ # tr) = started tr"

text \<open>The order of two readings of the clock.\<close>

definition ts_lt :: "timespec \<Rightarrow> timespec \<Rightarrow> bool" where
  "ts_lt a b \<longleftrightarrow> tv_sec a < tv_sec b \<or> (tv_sec a = tv_sec b \<and> tv_nsec a < tv_nsec b)"

section \<open>The policy server (hw5, server_pol.c)\<close>

text \<open>
  The queue of the policy server is a ring \<^verbatim>\<open>items[QUEUE_MAX]\<close> with \<^verbatim>\<open>int\<close> fields
  \<^verbatim>\<open>head\<close>, \<^verbatim>\<open>tail\<close> and \<^verbatim>\<open>size\<close> (here \<open>qsize\<close>); the capacity is the
  global \<^verbatim>\<open>QUEUE_SIZE\<close>, here the argument \<open>QS\<close>.  The layout of \<^verbatim>\<open>struct request\<close>
  is a type parameter, and \<open>len\<close> stands for \<^verbatim>\<open>TSPEC_TO_DOUBLE\<close> of the requested
  length of a request.  The \<^verbatim>\<open>int\<close> fields are integers: every value the functions
  compute from a queue that satisfies \<open>hw5_inv\<close> lies between \<open>- 1\<close> and \<open>2 * QUEUE_MAX\<close>.
  \<open>c_rem\<close> is the remainder of C, which truncates.  An access outside \<^verbatim>\<open>items\<close> and a
  remainder by 0 stop the model with an error.
\<close>

definition QUEUE_MAX :: int where
  "QUEUE_MAX = 1500"

record 'r hw5_request_meta =
  req :: 'r
  reciept :: timespec

record 'r hw5_queue =
  head :: int
  tail :: int
  items :: "'r hw5_request_meta list"
  qsize :: int

definition c_rem :: "int \<Rightarrow> int \<Rightarrow> int" where
  "c_rem a b = sgn a * (\<bar>a\<bar> mod \<bar>b\<bar>)"

definition in_items :: "'r hw5_queue \<Rightarrow> int \<Rightarrow> bool" where
  "in_items q i \<longleftrightarrow> 0 \<le> i \<and> i < int (length (items q))"

definition hw5_add_to_queue ::
  "int \<Rightarrow> 'r hw5_request_meta \<Rightarrow> 'r hw5_queue \<Rightarrow> error + (int \<times> 'r hw5_queue)" where
  "hw5_add_to_queue QS to_add q =
     (if QS = 0 then Inl DivByZero
      else
        (let next_write = c_rem (tail q + 1) QS in
         if next_write = head q then Inr (- 1, q)
         else if qsize q = 0 then
           (if in_items q 0
            then Inr (0, q\<lparr>head := 0, tail := 0, items := (items q)[0 := to_add],
                            qsize := qsize q + 1\<rparr>)
            else Inl OutOfBounds)
         else
           (if in_items q next_write
            then Inr (0, q\<lparr>tail := c_rem (tail q + 1) QS,
                            items := (items q)[nat next_write := to_add],
                            qsize := qsize q + 1\<rparr>)
            else Inl OutOfBounds)))"

text \<open>
  \<^verbatim>\<open>fifo_get_from_queue\<close>, for a caller that has passed \<^verbatim>\<open>queue_notify\<close>.  On an
  empty queue it prints a diagnostic and returns its local \<^verbatim>\<open>retval\<close> as it is
  (\<open>uninit\<close>).
\<close>

definition fifo_get_from_queue ::
  "int \<Rightarrow> 'r hw5_request_meta \<Rightarrow> 'r hw5_queue
     \<Rightarrow> error + ('r hw5_request_meta \<times> 'r hw5_queue)" where
  "fifo_get_from_queue QS uninit q =
     (if qsize q = 0 then Inr (uninit, q)
      else if \<not> in_items q (head q) then Inl OutOfBounds
      else if QS = 0 then Inl DivByZero
      else
        (let retval = items q ! nat (head q);
             q1 = q\<lparr>head := c_rem (head q + 1) QS, qsize := qsize q - 1\<rparr>
         in Inr (retval, if qsize q1 = 0 then q1\<lparr>head := - 1, tail := - 1\<rparr> else q1)))"

text \<open>The first loop of \<^verbatim>\<open>sjn_get_from_queue\<close>: the index of the shortest entry.\<close>

function sjn_scan ::
  "int \<Rightarrow> ('r \<Rightarrow> 'd::linorder) \<Rightarrow> 'r hw5_queue \<Rightarrow> int \<Rightarrow> int \<Rightarrow> 'd \<Rightarrow> error + (int \<times> 'd)" where
  "sjn_scan QS len q i ind_sjn length_sjn =
     (if i < qsize q then
        (if QS = 0 then Inl DivByZero
         else
           (let ix = c_rem (head q + i) QS in
            if \<not> in_items q ix then Inl OutOfBounds
            else
              (let cur_length = len (req (items q ! nat ix)) in
               if cur_length < length_sjn then sjn_scan QS len q (i + 1) ix cur_length
               else sjn_scan QS len q (i + 1) ind_sjn length_sjn)))
      else Inr (ind_sjn, length_sjn))"
  by pat_completeness auto
termination
  by (relation "measure (\<lambda>(QS, len, q, i, ind_sjn, length_sjn). nat (qsize q - i))") auto

declare sjn_scan.simps [simp del]

text \<open>
  The second loop: every entry between the head and the chosen one moves one slot
  towards the chosen one.  The loop ends when \<open>i\<close> meets the head; \<open>None\<close> is a loop that
  never does.
\<close>

partial_function (option) sjn_shift ::
  "int \<Rightarrow> 'r hw5_queue \<Rightarrow> int \<Rightarrow> (error + 'r hw5_queue) option" where
  "sjn_shift QS q i =
     (if i = head q then Some (Inr q)
      else if QS = 0 then Some (Inl DivByZero)
      else if \<not> in_items q i \<or> \<not> in_items q (c_rem (i - 1 + QS) QS) then Some (Inl OutOfBounds)
      else sjn_shift QS
             (q\<lparr>items := (items q)[nat i := items q ! nat (c_rem (i - 1 + QS) QS)]\<rparr>)
             (c_rem (i - 1 + QS) QS))"

text \<open>\<^verbatim>\<open>sjn_get_from_queue\<close>, for a caller that has passed \<^verbatim>\<open>queue_notify\<close>.\<close>

definition sjn_get_from_queue ::
  "int \<Rightarrow> ('r \<Rightarrow> 'd::linorder) \<Rightarrow> 'r hw5_request_meta \<Rightarrow> 'r hw5_queue
     \<Rightarrow> (error + ('r hw5_request_meta \<times> 'r hw5_queue)) option" where
  "sjn_get_from_queue QS len uninit q =
     (if qsize q = 0 then Some (Inr (uninit, q))
      else if \<not> in_items q (head q) then Some (Inl OutOfBounds)
      else
        (case sjn_scan QS len q 0 (head q) (len (req (items q ! nat (head q)))) of
           Inl e \<Rightarrow> Some (Inl e)
         | Inr (ind_sjn, length_sjn) \<Rightarrow>
             if \<not> in_items q ind_sjn then Some (Inl OutOfBounds)
             else
               (case sjn_shift QS q ind_sjn of
                  None \<Rightarrow> None
                | Some (Inl e) \<Rightarrow> Some (Inl e)
                | Some (Inr q1) \<Rightarrow>
                    if QS = 0 then Some (Inl DivByZero)
                    else
                      (let q2 = q1\<lparr>head := c_rem (head q1 + 1) QS, qsize := qsize q1 - 1\<rparr>
                       in Some (Inr (items q ! nat ind_sjn,
                                     if qsize q2 = 0 then q2\<lparr>head := - 1, tail := - 1\<rparr>
                                     else q2))))))"

text \<open>The live entries of the ring, oldest first, and the shape the functions keep.\<close>

definition hw5_live :: "int \<Rightarrow> 'r hw5_queue \<Rightarrow> 'r hw5_request_meta list" where
  "hw5_live QS q =
     map (\<lambda>j. items q ! nat ((head q + int j) mod QS)) [0..<nat (qsize q)]"

definition hw5_inv :: "int \<Rightarrow> 'r hw5_queue \<Rightarrow> bool" where
  "hw5_inv QS q \<longleftrightarrow>
     0 < QS \<and> QS \<le> QUEUE_MAX \<and> int (length (items q)) = QUEUE_MAX \<and>
     0 \<le> qsize q \<and> qsize q \<le> QS \<and>
     (if qsize q = 0 then head q = - 1 \<and> tail q = - 1
      else 0 \<le> head q \<and> head q < QS \<and> tail q = (head q + qsize q - 1) mod QS)"

text \<open>The position of the first entry of a list with the least key, by the scan of the code.\<close>

function first_min :: "('a \<Rightarrow> 'd::linorder) \<Rightarrow> 'a list \<Rightarrow> nat \<Rightarrow> nat \<Rightarrow> nat" where
  "first_min key xs i k =
     (if i < length xs
      then (if key (xs ! i) < key (xs ! k) then first_min key xs (i + 1) i
            else first_min key xs (i + 1) k)
      else k)"
  by pat_completeness auto
termination
  by (relation "measure (\<lambda>(key, xs, i, k). length xs - i)") auto

declare first_min.simps [simp del]

section \<open>The image server: abstraction and invariants\<close>

text \<open>The entries between the read and the write position, oldest first.\<close>

definition queue_live :: "queue \<Rightarrow> request_meta list" where
  "queue_live q =
     map (\<lambda>j. requests q ! ((rd_pos q + j) mod max_size q)) [0..<max_size q - available q]"

definition queue_inv :: "queue \<Rightarrow> bool" where
  "queue_inv q \<longleftrightarrow>
     0 < max_size q \<and> max_size q < 2 ^ 64 \<and> length (requests q) = max_size q \<and>
     rd_pos q < max_size q \<and> wr_pos q < max_size q \<and> available q \<le> max_size q \<and>
     wr_pos q = (rd_pos q + (max_size q - available q)) mod max_size q"

definition arr_inv :: "img_req_array \<Rightarrow> bool" where
  "arr_inv a \<longleftrightarrow> count a \<le> capacity a \<and> length (request_ids a) = capacity a"

definition arr_ids :: "img_req_array \<Rightarrow> u64 list" where
  "arr_ids a = take (count a) (request_ids a)"

text \<open>The store holds as many images as the counter says.\<close>

definition store_inv :: "'img server \<Rightarrow> bool" where
  "store_inv s \<longleftrightarrow> length (images s) = unat (image_counter s)"

text \<open>Between two calls the semaphore \<^verbatim>\<open>queue_notify\<close> counts the live entries.\<close>

definition server_inv :: "'img server \<Rightarrow> bool" where
  "server_inv s \<longleftrightarrow>
     queue_inv (the_queue s) \<and> queue_notify s = length (queue_live (the_queue s)) \<and>
     (\<forall>a \<in> set (wait_op s). arr_inv a)"

subsection \<open>The turn gate\<close>

text \<open>
  The image and the id of the request a worker holds, and of an entry of the queue.  A
  worker holds the semaphore of its image from the wait that lets it in to the post at line
  338 (\<open>holding_lines\<close>); its request id waits in \<^verbatim>\<open>wait_op\<close> from the moment it took
  the request to the removal at line 297 (\<open>waiting_lines\<close>).
\<close>

definition gate_img :: "'img gate_worker \<Rightarrow> u64" where
  "gate_img w = request.img_id (request (req_w w))"

definition gate_rid :: "'img gate_worker \<Rightarrow> u64" where
  "gate_rid w = request.req_id (request (req_w w))"

definition meta_img :: "request_meta \<Rightarrow> u64" where
  "meta_img m = request.img_id (request m)"

definition meta_rid :: "request_meta \<Rightarrow> u64" where
  "meta_rid m = request.req_id (request m)"

definition holding_lines :: "gate_pc set" where
  "holding_lines = {L290, L291, L292, L296, L301, L304, L326, L338}"

definition waiting_lines :: "gate_pc set" where
  "waiting_lines = {L289, L290, L291, L292, L293, L296}"

definition local_lines :: "gate_pc set" where
  "local_lines = {L289, L290, L291, L292, L293, L296, L301, L304, L326}"

definition pointer_lines :: "gate_pc set" where
  "pointer_lines = {L291, L292, L293, L296}"

text \<open>
  The request ids of the workers that stand at one of the lines \<open>L\<close> with a request for
  image \<open>i\<close>; the request ids of the entries of a list that are for image \<open>i\<close>.
\<close>

definition ids_at :: "gate_pc set \<Rightarrow> u64 \<Rightarrow> 'img gate_worker list \<Rightarrow> u64 multiset" where
  "ids_at L i ws = image_mset gate_rid (filter_mset (\<lambda>w. at_line w \<in> L \<and> gate_img w = i) (mset ws))"

definition ids_for :: "u64 \<Rightarrow> request_meta list \<Rightarrow> u64 list" where
  "ids_for i ms = map meta_rid (filter (\<lambda>m. meta_img m = i) ms)"

text \<open>
  What every step keeps, for the images that were registered: their cells of both tables
  exist and the cell of \<^verbatim>\<open>wait_op\<close> is well formed (\<open>inv_reg\<close>); the entries of the
  queue, the requests of the workers and the requests started were admitted (\<open>inv_adm\<close>);
  at most one worker holds the semaphore of an image, none when it is free (\<open>inv_sem\<close>);
  \<^verbatim>\<open>img_id\<close> is the image of the request until line 332 may replace it by an id no
  registration gave (\<open>inv_loc\<close>); the ids admitted for an image are the ids started,
  then the id removed and not yet stamped, then the ids in its cell of \<^verbatim>\<open>wait_op\<close>
  (\<open>inv_ord\<close>); the ids in that cell are the ids in the queue and with the workers before
  line 297 (\<open>inv_fly\<close>); and a worker that has passed the loop finds its own id first in
  the cell (\<open>inv_turn\<close>).
\<close>

definition inv_reg :: "gate_event list \<Rightarrow> img_req_array list \<Rightarrow> nat list \<Rightarrow> bool" where
  "inv_reg tr wo sems \<longleftrightarrow>
     (\<forall>i. Registered i \<in> set tr \<longrightarrow>
        unat i < length wo \<and> unat i < length sems \<and> arr_inv (wo ! unat i))"

definition inv_adm ::
  "gate_event list \<Rightarrow> img_req_array list \<Rightarrow> request_meta list \<Rightarrow> 'img gate_worker list \<Rightarrow> bool" where
  "inv_adm tr wo live ws \<longleftrightarrow>
     set live \<subseteq> set (admitted tr) \<and>
     (\<forall>n<length ws. at_line (ws ! n) \<noteq> L282 \<longrightarrow>
        request (req_w (ws ! n)) \<in> request ` set (admitted tr)) \<and>
     (\<forall>m\<in>set (started tr). request m \<in> request ` set (admitted tr)) \<and>
     (\<forall>m\<in>set (admitted tr). unat (meta_img m) < length wo)"

definition inv_sem :: "gate_event list \<Rightarrow> nat list \<Rightarrow> 'img gate_worker list \<Rightarrow> bool" where
  "inv_sem tr sems ws \<longleftrightarrow>
     (\<forall>i. Registered i \<in> set tr \<longrightarrow> size (ids_at holding_lines i ws) + sems ! unat i \<le> 1)"

definition inv_loc :: "gate_event list \<Rightarrow> u64 \<Rightarrow> 'img gate_worker list \<Rightarrow> bool" where
  "inv_loc tr c ws \<longleftrightarrow>
     (\<forall>n<length ws.
        (at_line (ws ! n) \<in> local_lines \<longrightarrow> img_id_w (ws ! n) = gate_img (ws ! n)) \<and>
        (at_line (ws ! n) \<in> pointer_lines \<longrightarrow>
           snd (img_array_w (ws ! n)) = unat (gate_img (ws ! n))) \<and>
        (at_line (ws ! n) = L338 \<longrightarrow>
           img_id_w (ws ! n) = gate_img (ws ! n) \<or>
           (Registered (img_id_w (ws ! n)) \<notin> set tr \<and> unat (img_id_w (ws ! n)) < unat c)))"

definition inv_ord :: "gate_event list \<Rightarrow> img_req_array list \<Rightarrow> 'img gate_worker list \<Rightarrow> bool" where
  "inv_ord tr wo ws \<longleftrightarrow>
     (\<forall>i. Registered i \<in> set tr \<longrightarrow>
        (\<exists>mid. mset mid = ids_at {L301} i ws \<and>
              ids_for i (admitted tr) = ids_for i (started tr) @ mid @ arr_ids (wo ! unat i)))"

definition inv_fly ::
  "gate_event list \<Rightarrow> img_req_array list \<Rightarrow> request_meta list \<Rightarrow> 'img gate_worker list \<Rightarrow> bool" where
  "inv_fly tr wo live ws \<longleftrightarrow>
     (\<forall>i. Registered i \<in> set tr \<longrightarrow>
        mset (ids_for i live) + ids_at waiting_lines i ws = mset (arr_ids (wo ! unat i)))"

definition inv_turn :: "gate_event list \<Rightarrow> img_req_array list \<Rightarrow> 'img gate_worker list \<Rightarrow> bool" where
  "inv_turn tr wo ws \<longleftrightarrow>
     (\<forall>n<length ws. at_line (ws ! n) = L296 \<and> Registered (gate_img (ws ! n)) \<in> set tr \<longrightarrow>
        arr_ids (wo ! unat (gate_img (ws ! n))) \<noteq> [] \<and>
        hd (arr_ids (wo ! unat (gate_img (ws ! n)))) = gate_rid (ws ! n))"

definition gate_inv :: "'img gate_state \<Rightarrow> gate_event list \<Rightarrow> bool" where
  "gate_inv s tr \<longleftrightarrow>
     queue_inv (the_queue (srv s)) \<and>
     queue_notify (srv s) = length (queue_live (the_queue (srv s))) \<and>
     length (wait_op (srv s)) \<le> unat (image_counter (srv s)) \<and>
     length (img_semaphores s) \<le> unat (image_counter (srv s)) \<and>
     inv_reg tr (wait_op (srv s)) (img_semaphores s) \<and>
     inv_adm tr (wait_op (srv s)) (queue_live (the_queue (srv s))) (gate_workers s) \<and>
     inv_sem tr (img_semaphores s) (gate_workers s) \<and>
     inv_loc tr (image_counter (srv s)) (gate_workers s) \<and>
     inv_ord tr (wait_op (srv s)) (gate_workers s) \<and>
     inv_fly tr (wait_op (srv s)) (queue_live (the_queue (srv s))) (gate_workers s) \<and>
     inv_turn tr (wait_op (srv s)) (gate_workers s)"

section \<open>Example data\<close>

text \<open>A server with one registered image and an empty queue of capacity 2, the same
  server with its queue full, and the requests the examples below send to them.\<close>

definition ts0 :: timespec where
  "ts0 = \<lparr>tv_sec = 0, tv_nsec = 0\<rparr>"

definition ex_request :: "u64 \<Rightarrow> img_opcode \<Rightarrow> 8 word \<Rightarrow> u64 \<Rightarrow> request" where
  "ex_request rid opc ow im =
     \<lparr>request.req_id = rid, req_timestamp = ts0, req_length = ts0, img_op = opc,
      overwrite = ow, request.img_id = im\<rparr>"

definition ex_meta :: "request \<Rightarrow> request_meta" where
  "ex_meta r =
     \<lparr>request = r, receipt_timestamp = ts0, start_timestamp = ts0, completion_timestamp = ts0\<rparr>"

definition ex_server :: "nat server" where
  "ex_server =
     \<lparr>the_queue = queue_init [ex_meta (ex_request 0 IMG_OTHER 0 0),
                             ex_meta (ex_request 0 IMG_OTHER 0 0)] 2 QUEUE_FIFO,
      queue_notify = 0,
      wait_op = [\<lparr>request_ids = [], count = 0, capacity = 0\<rparr>],
      images = [Some 10],
      image_counter = 1,
      sock = [],
      stdout = []\<rparr>"

definition ex_full :: "nat server" where
  "ex_full = ex_server\<lparr>the_queue := (the_queue ex_server)\<lparr>available := 0\<rparr>, queue_notify := 2\<rparr>"

text \<open>An image library on numbers, and what one turn of the dispatcher receives: a request
  with an opcode outside the enumeration, for image 0.  The local \<^verbatim>\<open>resp\<close> happens to hold
  image id 7.\<close>

definition ex_lib :: "nat img_lib" where
  "ex_lib =
     \<lparr>rotate90Clockwise = (\<lambda>x. x + 1), blurImage = (\<lambda>x. x + 2), sharpenImage = (\<lambda>x. x + 3),
      detectVerticalEdges = (\<lambda>x. x + 4), detectHorizontalEdges = (\<lambda>x. x + 5)\<rparr>"

definition ex_io :: "nat dispatch_io" where
  "ex_io =
     \<lparr>rx_bytes = ex_request 9 IMG_OTHER 0 0,
      clk_receipt = ts0, clk_start = ts0, clk_completion = ts0,
      rx_image = Some 20,
      resp_uninit = \<lparr>response.req_id = 99, response.img_id = 7, ack = RESP_COMPLETED\<rparr>,
      wait_op_uninit = \<lparr>request_ids = [], count = 0, capacity = 0\<rparr>\<rparr>"

text \<open>The request of \<open>ex_io\<close> once received, and the server after it was admitted, after
  a worker took it from the queue, and after the worker stored its result.\<close>

definition ex_unknown :: request_meta where
  "ex_unknown = ex_meta (rx_bytes ex_io)"

definition ex_admitted :: "nat server" where
  "ex_admitted =
     ex_server\<lparr>the_queue := (the_queue ex_server)
                  \<lparr>wr_pos := 1, available := 1,
                   requests := [ex_unknown, ex_meta (ex_request 0 IMG_OTHER 0 0)]\<rparr>,
                queue_notify := 1,
                wait_op := [\<lparr>request_ids = [9], count = 1, capacity = 1\<rparr>]\<rparr>"

definition ex_dequeued :: "nat server" where
  "ex_dequeued =
     ex_admitted\<lparr>the_queue := (the_queue ex_admitted)\<lparr>rd_pos := 1, available := 2\<rparr>,
                  queue_notify := 0\<rparr>"

definition ex_published :: "nat server" where
  "ex_published = ex_dequeued\<lparr>images := [Some 10, Some 10], image_counter := 2\<rparr>"


text \<open>A request for image 0 that arrives while the queue is full.\<close>

definition ex_late :: "nat dispatch_io" where
  "ex_late =
     ex_io\<lparr>rx_bytes := \<lparr>request.req_id = 12, req_timestamp = \<lparr>tv_sec = 1, tv_nsec = 0\<rparr>,
                          req_length = \<lparr>tv_sec = 2, tv_nsec = 0\<rparr>, img_op = IMG_BLUR,
                          overwrite = 0, request.img_id = 0\<rparr>,
            clk_receipt := \<lparr>tv_sec = 3, tv_nsec = 0\<rparr>\<rparr>"

text \<open>Two workers about to answer: worker 0 a RETRIEVE of image 0 (request 5), worker 1 a
  BLUR of image 1 (request 6).  The semaphore of the socket is free.\<close>

definition ex_wire :: "nat wire_state" where
  "ex_wire =
     \<lparr>conn_socket_mutex = 1,
      wire = [],
      senders =
        [\<lparr>at_pc = L347,
          hdr = \<lparr>response.req_id = 5, response.img_id = 0, ack = RESP_COMPLETED\<rparr>,
          opcode = IMG_RETRIEVE, payload = 10\<rparr>,
         \<lparr>at_pc = L347,
          hdr = \<lparr>response.req_id = 6, response.img_id = 1, ack = RESP_COMPLETED\<rparr>,
          opcode = IMG_BLUR, payload = 33\<rparr>]\<rparr>"

text \<open>A run of the store: two registrations around three publications.\<close>

definition ex_ops :: "nat store_op list" where
  "ex_ops =
     [Store_register (Some 20),
      Store_publish (ex_request 2 IMG_BLUR 0 0) 12,
      Store_publish (ex_request 3 IMG_SHARPEN 1 0) 13,
      Store_publish (ex_request 4 IMG_RETRIEVE 0 1) 20,
      Store_register (Some 30)]"

definition hw5_ex_item :: "nat \<Rightarrow> nat hw5_request_meta" where
  "hw5_ex_item n = \<lparr>req = n, reciept = ts0\<rparr>"

text \<open>Queues of the policy server: one entry of length 5; and five entries of lengths
  5, 1, 3, 2, 4, admitted in this order.\<close>

definition hw5_ex_one :: "nat hw5_queue" where
  "hw5_ex_one = \<lparr>head = 0, tail = 0, items = replicate 1500 (hw5_ex_item 5), qsize = 1\<rparr>"

definition hw5_ex_five :: "nat hw5_queue" where
  "hw5_ex_five =
     \<lparr>head = 0, tail = 4,
      items = map hw5_ex_item [5, 1, 3, 2, 4] @ replicate 1495 (hw5_ex_item 0),
      qsize = 5\<rparr>"

text \<open>
  The image server at the start of a connection, with two workers and a queue of capacity 2;
  a clock that reads whole seconds; a request as the dispatcher admits it at second \<open>t\<close>; and
  the turn of the dispatcher on a header received at second \<open>t\<close>.
\<close>

definition ex_gate_init :: "nat gate_state" where
  "ex_gate_init =
     gate_init [ex_meta (ex_request 0 IMG_OTHER 0 0), ex_meta (ex_request 0 IMG_OTHER 0 0)]
       \<lparr>queue_size = 2, workers = 2, queue_policy = QUEUE_FIFO\<rparr>
       (ex_meta (ex_request 0 IMG_OTHER 0 0))
       \<lparr>at_line = L282, req_w = ex_meta (ex_request 0 IMG_OTHER 0 0), img_id_w = 0,
        img_array_w = (0, 0), img_w = None\<rparr>"

definition ex_clock :: "int \<Rightarrow> timespec" where
  "ex_clock n = \<lparr>tv_sec = n, tv_nsec = 0\<rparr>"

definition ex_arrival :: "request \<Rightarrow> int \<Rightarrow> request_meta" where
  "ex_arrival r t = (ex_meta r)\<lparr>receipt_timestamp := ex_clock t\<rparr>"

definition ex_send :: "request \<Rightarrow> int \<Rightarrow> nat gate_move" where
  "ex_send r t = Dispatch (ex_io\<lparr>rx_bytes := r, clk_receipt := ex_clock t\<rparr>) 0 False"

text \<open>The dispatcher receives a registration with image \<open>im\<close>; the dispatcher goes on
  from a line where it takes nothing from outside but the clock.\<close>

definition ex_register :: "u64 \<Rightarrow> nat \<Rightarrow> int \<Rightarrow> nat gate_move" where
  "ex_register rid im t =
     Dispatch (ex_io\<lparr>rx_bytes := ex_request rid IMG_REGISTER 0 0, clk_receipt := ex_clock t,
                     rx_image := Some im\<rparr>) 0 False"

definition ex_go :: "nat gate_move" where
  "ex_go = Dispatch ex_io 0 False"

text \<open>
  Two runs: an image is registered, then a BLUR in place and a RETRIEVE of it are admitted.
  Worker 0 takes the first request and worker 1 the second, and worker 1 is first at the
  gate.  In the first run both requests carry the id 7, in the second the ids 7 and 8.
\<close>

definition ex_dup_schedule :: "nat gate_move list" where
  "ex_dup_schedule =
     [ex_register 1 20 1, ex_go, ex_go,
      ex_send (ex_request 7 IMG_BLUR 1 0) 2,
      ex_send (ex_request 7 IMG_RETRIEVE 0 0) 3,
      Work 0 (ex_clock 4), Work 1 (ex_clock 5),
      Work 1 (ex_clock 6), Work 1 (ex_clock 7), Work 1 (ex_clock 8), Work 1 (ex_clock 9),
      Work 1 (ex_clock 10), Work 1 (ex_clock 11), Work 1 (ex_clock 12), Work 1 (ex_clock 13),
      Work 0 (ex_clock 14), Work 0 (ex_clock 15), Work 0 (ex_clock 16), Work 0 (ex_clock 17),
      Work 0 (ex_clock 18)]"

definition ex_turn_schedule :: "nat gate_move list" where
  "ex_turn_schedule =
     [ex_register 1 20 1, ex_go, ex_go,
      ex_send (ex_request 7 IMG_BLUR 1 0) 2,
      ex_send (ex_request 8 IMG_RETRIEVE 0 0) 3,
      Work 0 (ex_clock 4), Work 1 (ex_clock 5),
      Work 1 (ex_clock 6), Work 1 (ex_clock 7), Work 1 (ex_clock 8), Work 1 (ex_clock 9),
      Work 0 (ex_clock 10), Work 0 (ex_clock 11), Work 0 (ex_clock 12), Work 0 (ex_clock 13),
      Work 0 (ex_clock 14), Work 0 (ex_clock 15), Work 0 (ex_clock 16), Work 0 (ex_clock 17),
      Work 1 (ex_clock 18), Work 1 (ex_clock 19), Work 1 (ex_clock 20), Work 1 (ex_clock 21)]"

text \<open>
  A registration and a worker side by side.  Image 0 is registered (10) and a BLUR of it
  that does not overwrite is admitted; worker 0 takes it through the gate and computes the
  result (12).  The dispatcher then receives the registration of a second image (20) and
  runs \<^verbatim>\<open>register_new_image\<close> up to the post of \<^verbatim>\<open>arr_mutex\<close>; worker 0 stores its
  result (lines 326 to 337); the dispatcher sends the response (lines 261 to 268).
\<close>

definition ex_race_schedule :: "nat gate_move list" where
  "ex_race_schedule =
     [ex_register 1 10 1, ex_go, ex_go,
      ex_send (ex_request 2 IMG_BLUR 0 0) 2,
      Work 0 (ex_clock 3), Work 0 (ex_clock 4), Work 0 (ex_clock 5), Work 0 (ex_clock 6),
      Work 0 (ex_clock 7), Work 0 (ex_clock 8), Work 0 (ex_clock 9),
      ex_register 3 20 10,
      Work 0 (ex_clock 11),
      ex_go]"

section \<open>Properties of the bounded queue\<close>

lemma size_t_wrap_id: "n < 2 ^ 64 \<Longrightarrow> size_t_wrap n = n"
  by (simp add: size_t_wrap_def)

lemma queue_init_inv:
  "0 < n \<Longrightarrow> n < 2 ^ 64 \<Longrightarrow> length mem = n \<Longrightarrow> queue_inv (queue_init mem n pol)"
  by (simp add: queue_inv_def queue_init_def)

lemma queue_init_live: "queue_live (queue_init mem n pol) = []"
  by (simp add: queue_live_def queue_init_def)

lemma realloc_cells_grow:
  "length xs \<le> n \<Longrightarrow> realloc_cells fill n xs = xs @ replicate (n - length xs) fill"
  by (simp add: realloc_cells_def)

lemma length_realloc_cells [simp]: "length (realloc_cells fill n xs) = n"
  by (simp add: realloc_cells_def)

lemma img_arr_push_ok:
  assumes "arr_inv a"
  shows "\<exists>a'. img_arr_push rid a = Inr a' \<and> arr_inv a' \<and> arr_ids a' = arr_ids a @ [rid]
           \<and> count a' = count a + 1"
proof (cases "count a = capacity a")
  case True
  define cap where "cap = (if capacity a = 0 then 1 else capacity a * 2)"
  have len: "length (request_ids a) = capacity a" and cap: "capacity a < cap"
    using assms by (auto simp: arr_inv_def cap_def)
  have r: "realloc_cells 0 cap (request_ids a) = request_ids a @ replicate (cap - capacity a) 0"
    using len cap by (simp add: realloc_cells_grow)
  obtain k where k: "cap - capacity a = Suc k"
    using cap by (metis Suc_diff_Suc)
  show ?thesis
    using True len cap r k
    by (simp add: img_arr_push_def Let_def cap_def[symmetric] arr_inv_def arr_ids_def list_update_append)
next
  case False
  then have lt: "count a < length (request_ids a)"
    using assms by (simp add: arr_inv_def)
  show ?thesis
    using False lt assms
    by (simp add: img_arr_push_def Let_def arr_inv_def arr_ids_def take_Suc_conv_app_nth)
qed

lemma ring_slots_distinct:
  fixes r :: nat
  assumes "j < n" "n < m"
  shows "(r + j) mod m \<noteq> (r + n) mod m"
proof
  assume "(r + j) mod m = (r + n) mod m"
  then have "(r + n) mod m = (r + j) mod m" by simp
  then have "m dvd (r + n) - (r + j)"
    using assms by (subst (asm) mod_eq_dvd_iff_nat) auto
  then have "m dvd n - j" by simp
  then show False
    using assms by (auto dest!: dvd_imp_le)
qed

lemma queue_push:
  fixes m :: request_meta
  assumes inv: "queue_inv q" and room: "available q \<noteq> 0"
  defines "q1 \<equiv> q\<lparr>wr_pos := size_t_wrap (wr_pos q + 1) mod max_size q,
                    available := available q - 1,
                    requests := (requests q)[wr_pos q := m]\<rparr>"
  shows "queue_inv q1"
    and "queue_live q1 = queue_live q @ [m]"
    and "wr_pos q1 = (wr_pos q + 1) mod max_size q"
proof -
  define M n where "M = max_size q" and "n = max_size q - available q"
  have M: "0 < M" "M < 2 ^ 64" "length (requests q) = M" "rd_pos q < M" "wr_pos q < M"
    "available q \<le> M"
    using inv by (auto simp: queue_inv_def M_def)
  have wr: "wr_pos q = (rd_pos q + n) mod M"
    using inv unfolding queue_inv_def M_def n_def by blast
  have n: "n < M" using room M by (simp add: n_def M_def)
  have n1: "M - available q1 = Suc n"
    using room M by (simp add: q1_def n_def M_def)
  have same: "max_size q1 = M" "rd_pos q1 = rd_pos q" "length (requests q1) = M"
    "requests q1 = (requests q)[wr_pos q := m]"
    using M by (simp_all add: q1_def M_def)
  have "size_t_wrap (wr_pos q + 1) = wr_pos q + 1"
    using M by (intro size_t_wrap_id) simp
  then show 3: "wr_pos q1 = (wr_pos q + 1) mod max_size q"
    by (simp add: q1_def)
  have 4: "wr_pos q1 = (rd_pos q + Suc n) mod M"
    unfolding 3 wr M_def[symmetric] by (simp add: mod_Suc_eq)
  have "wr_pos q1 < M" "available q1 \<le> M"
    using M 3 by (simp_all add: M_def q1_def)
  then show "queue_inv q1"
    unfolding queue_inv_def same n1 using M 4 by simp
  have old: "(requests q)[wr_pos q := m] ! ((rd_pos q + j) mod M) = requests q ! ((rd_pos q + j) mod M)"
    if "j < n" for j
    using ring_slots_distinct[OF that n, of "rd_pos q"] wr by simp
  have new: "(requests q)[wr_pos q := m] ! ((rd_pos q + n) mod M) = m"
    using wr M by simp
  have "queue_live q1 = map (\<lambda>j. (requests q)[wr_pos q := m] ! ((rd_pos q + j) mod M)) [0..<Suc n]"
    unfolding queue_live_def same n1 ..
  also have "\<dots> = map (\<lambda>j. requests q ! ((rd_pos q + j) mod M)) [0..<n] @ [m]"
    using old new by simp
  also have "map (\<lambda>j. requests q ! ((rd_pos q + j) mod M)) [0..<n] = queue_live q"
    unfolding queue_live_def M_def n_def ..
  finally show "queue_live q1 = queue_live q @ [m]" .
qed

lemma queue_pop:
  assumes inv: "queue_inv q" and some: "available q < max_size q"
  defines "q1 \<equiv> q\<lparr>rd_pos := size_t_wrap (rd_pos q + 1) mod max_size q,
                    available := size_t_wrap (available q + 1)\<rparr>"
  shows "queue_inv q1"
    and "queue_live q = requests q ! rd_pos q # queue_live q1"
    and "rd_pos q1 = (rd_pos q + 1) mod max_size q"
    and "available q1 = available q + 1"
proof -
  define M k where "M = max_size q" and "k = max_size q - available q - 1"
  have M: "0 < M" "M < 2 ^ 64" "length (requests q) = M" "rd_pos q < M" "wr_pos q < M"
    "available q \<le> M"
    using inv by (auto simp: queue_inv_def M_def)
  have n: "max_size q - available q = Suc k"
    using some by (simp add: k_def)
  have wr: "wr_pos q = (rd_pos q + Suc k) mod M"
    using inv unfolding queue_inv_def M_def n by blast
  have "size_t_wrap (rd_pos q + 1) = rd_pos q + 1"
    using M by (intro size_t_wrap_id) simp
  moreover have "size_t_wrap (available q + 1) = available q + 1"
    using M some by (intro size_t_wrap_id) (simp add: M_def)
  ultimately show 3: "rd_pos q1 = (rd_pos q + 1) mod max_size q"
    and 4: "available q1 = available q + 1"
    by (simp_all add: q1_def)
  have same: "max_size q1 = M" "wr_pos q1 = wr_pos q" "length (requests q1) = M"
    "requests q1 = requests q"
    using M by (simp_all add: q1_def M_def)
  have k1: "M - available q1 = k"
    unfolding 4 by (simp add: k_def M_def)
  have shift: "(rd_pos q1 + j) mod M = (rd_pos q + Suc j) mod M" for j
    unfolding 3 M_def[symmetric] by (simp add: mod_add_left_eq)
  have "rd_pos q1 < M" "available q1 \<le> M"
    using M some unfolding 3 4 by (simp_all add: M_def)
  then show "queue_inv q1"
    unfolding queue_inv_def same k1 using M wr shift[of k] by simp
  have "queue_live q = map (\<lambda>j. requests q ! ((rd_pos q + j) mod M)) [0..<Suc k]"
    unfolding queue_live_def n M_def ..
  also have "[0..<Suc k] = 0 # map Suc [0..<k]"
    by (simp add: upt_conv_Cons map_Suc_upt del: upt_Suc)
  also have "map (\<lambda>j. requests q ! ((rd_pos q + j) mod M)) (0 # map Suc [0..<k])
             = requests q ! rd_pos q # map (\<lambda>j. requests q ! ((rd_pos q1 + j) mod M)) [0..<k]"
    using M by (simp add: shift comp_def)
  also have "map (\<lambda>j. requests q ! ((rd_pos q1 + j) mod M)) [0..<k] = queue_live q1"
    unfolding queue_live_def same k1 ..
  finally show "queue_live q = requests q ! rd_pos q # queue_live q1" .
qed

lemma add_to_queue_full:
  "available (the_queue s) = 0 \<Longrightarrow> add_to_queue m s = Inr (1, s)"
  by (simp add: add_to_queue_def)

lemma add_to_queue_ok:
  fixes s :: "'img server" and m :: request_meta
  defines "q \<equiv> the_queue s" and "i \<equiv> unat (request.img_id (request m))"
  assumes room: "available q \<noteq> 0" and inv: "queue_inv q"
    and i: "i < length (wait_op s)" and arr: "arr_inv (wait_op s ! i)"
  shows "\<exists>s'. add_to_queue m s = Inr (0, s') \<and>
              requests (the_queue s') = (requests q)[wr_pos q := m] \<and>
              requests (the_queue s') ! wr_pos q = m \<and>
              wr_pos (the_queue s') = (wr_pos q + 1) mod max_size q \<and>
              available (the_queue s') + 1 = available q \<and>
              rd_pos (the_queue s') = rd_pos q \<and>
              max_size (the_queue s') = max_size q \<and>
              policy (the_queue s') = policy q \<and>
              queue_live (the_queue s') = queue_live q @ [m] \<and>
              queue_inv (the_queue s') \<and>
              arr_ids (wait_op s' ! i) = arr_ids (wait_op s ! i) @ [request.req_id (request m)] \<and>
              arr_inv (wait_op s' ! i) \<and>
              length (wait_op s') = length (wait_op s) \<and>
              (\<forall>j. j \<noteq> i \<longrightarrow> wait_op s' ! j = wait_op s ! j) \<and>
              queue_notify s' = queue_notify s + 1 \<and>
              images s' = images s \<and> image_counter s' = image_counter s \<and>
              sock s' = sock s \<and> stdout s' = stdout s"
proof -
  define q1 where "q1 = q\<lparr>wr_pos := size_t_wrap (wr_pos q + 1) mod max_size q,
                           available := available q - 1,
                           requests := (requests q)[wr_pos q := m]\<rparr>"
  have M: "0 < max_size q" "wr_pos q < length (requests q)"
    using inv by (auto simp: queue_inv_def)
  obtain a where a: "img_arr_push (request.req_id (request m)) (wait_op s ! i) = Inr a"
    "arr_ids a = arr_ids (wait_op s ! i) @ [request.req_id (request m)]" "arr_inv a"
    using img_arr_push_ok[OF arr, of "request.req_id (request m)"] by blast
  define s' where "s' = s\<lparr>the_queue := q1, queue_notify := queue_notify s + 1,
                           wait_op := (wait_op s)[i := a]\<rparr>"
  have run: "add_to_queue m s = Inr (0, s')"
    using room M i a(1)
    by (simp add: add_to_queue_def Let_def q_def[symmetric] i_def[symmetric] q1_def s'_def)
  note push = queue_push[OF inv room, of m, folded q1_def]
  have q': "the_queue s' = q1" by (simp add: s'_def)
  show ?thesis
  proof (intro exI[of _ s'] conjI)
    show "add_to_queue m s = Inr (0, s')" by (rule run)
    show "queue_live (the_queue s') = queue_live q @ [m]" unfolding q' by (rule push)
    show "queue_inv (the_queue s')" unfolding q' by (rule push)
    show "wr_pos (the_queue s') = (wr_pos q + 1) mod max_size q" unfolding q' by (rule push)
    show "arr_ids (wait_op s' ! i) = arr_ids (wait_op s ! i) @ [request.req_id (request m)]"
      using i a(2) by (simp add: s'_def)
    show "arr_inv (wait_op s' ! i)" using i a(3) by (simp add: s'_def)
    show "available (the_queue s') + 1 = available q"
      using room by (simp add: s'_def q1_def)
  qed (use M in \<open>simp_all add: s'_def q1_def\<close>)
qed

subsection \<open>Admission\<close>





subsection \<open>Extraction\<close>

lemma get_from_queue_ok:
  fixes s :: "'img server"
  defines "q \<equiv> the_queue s"
  assumes inv: "queue_inv q" and some: "available q < max_size q" and sem: "queue_notify s \<noteq> 0"
  shows "\<exists>s'. get_from_queue s = Inr (requests q ! rd_pos q, s') \<and>
              queue_inv (the_queue s') \<and>
              queue_live q = requests q ! rd_pos q # queue_live (the_queue s') \<and>
              rd_pos (the_queue s') = (rd_pos q + 1) mod max_size q \<and>
              available (the_queue s') = available q + 1 \<and>
              wr_pos (the_queue s') = wr_pos q \<and> max_size (the_queue s') = max_size q \<and>
              requests (the_queue s') = requests q \<and> policy (the_queue s') = policy q \<and>
              queue_notify s' + 1 = queue_notify s \<and> wait_op s' = wait_op s \<and>
              images s' = images s \<and> image_counter s' = image_counter s \<and>
              sock s' = sock s \<and> stdout s' = stdout s"
proof -
  define q1 where "q1 = q\<lparr>rd_pos := size_t_wrap (rd_pos q + 1) mod max_size q,
                           available := size_t_wrap (available q + 1)\<rparr>"
  define s' where "s' = s\<lparr>the_queue := q1, queue_notify := queue_notify s - 1\<rparr>"
  have M: "0 < max_size q" "rd_pos q < length (requests q)"
    using inv by (auto simp: queue_inv_def)
  have run: "get_from_queue s = Inr (requests q ! rd_pos q, s')"
    using M sem by (simp add: get_from_queue_def Let_def q_def[symmetric] q1_def s'_def)
  note pop = queue_pop[OF inv some, folded q1_def]
  have q': "the_queue s' = q1" by (simp add: s'_def)
  show ?thesis
  proof (intro exI[of _ s'] conjI)
    show "get_from_queue s = Inr (requests q ! rd_pos q, s')" by (rule run)
    show "queue_inv (the_queue s')" unfolding q' by (rule pop)
    show "queue_live q = requests q ! rd_pos q # queue_live (the_queue s')"
      unfolding q' by (rule pop)
    show "rd_pos (the_queue s') = (rd_pos q + 1) mod max_size q" unfolding q' by (rule pop)
    show "available (the_queue s') = available q + 1" unfolding q' by (rule pop)
    show "queue_notify s' + 1 = queue_notify s" using sem by (simp add: s'_def)
  qed (simp_all add: s'_def q1_def)
qed

lemma get_from_queue_policy:
  "get_from_queue (s\<lparr>the_queue := (the_queue s)\<lparr>policy := p\<rparr>\<rparr>) =
     (case get_from_queue s of
        Inl e \<Rightarrow> Inl e
      | Inr (m, s') \<Rightarrow> Inr (m, s'\<lparr>the_queue := (the_queue s')\<lparr>policy := p\<rparr>\<rparr>))"
  by (simp add: get_from_queue_def Let_def)

lemma length_queue_live: "length (queue_live q) = max_size q - available q"
  by (simp add: queue_live_def)

lemma admit_all_ok:
  fixes s :: "'img server"
  assumes "server_inv s"
    and "\<forall>m \<in> set ms. unat (request.img_id (request m)) < length (wait_op s)"
    and "length (queue_live (the_queue s)) + length ms \<le> max_size (the_queue s)"
  shows "\<exists>s1. admit_all ms s = Inr (replicate (length ms) 0, s1) \<and> server_inv s1 \<and>
              queue_live (the_queue s1) = queue_live (the_queue s) @ ms \<and>
              policy (the_queue s1) = policy (the_queue s)"
  using assms
proof (induction ms arbitrary: s)
  case Nil
  then show ?case by simp
next
  case (Cons m ms)
  let ?i = "unat (request.img_id (request m))"
  have inv: "queue_inv (the_queue s)" and sem: "queue_notify s = length (queue_live (the_queue s))"
    and arrs: "\<forall>a \<in> set (wait_op s). arr_inv a"
    using Cons.prems(1) by (auto simp: server_inv_def)
  have i: "?i < length (wait_op s)" using Cons.prems(2) by simp
  have room: "available (the_queue s) \<noteq> 0"
    using Cons.prems(3) inv by (auto simp: length_queue_live queue_inv_def)
  have "arr_inv (wait_op s ! ?i)" using arrs i by simp
  from add_to_queue_ok[OF room inv i this]
  obtain s1 where s1: "add_to_queue m s = Inr (0, s1)"
    "queue_inv (the_queue s1)"
    "queue_live (the_queue s1) = queue_live (the_queue s) @ [m]"
    "max_size (the_queue s1) = max_size (the_queue s)"
    "policy (the_queue s1) = policy (the_queue s)"
    "arr_inv (wait_op s1 ! ?i)"
    "length (wait_op s1) = length (wait_op s)"
    "\<forall>j. j \<noteq> ?i \<longrightarrow> wait_op s1 ! j = wait_op s ! j"
    "queue_notify s1 = queue_notify s + 1"
    by blast
  have "arr_inv a" if "a \<in> set (wait_op s1)" for a
  proof -
    from that obtain j where j: "j < length (wait_op s1)" "a = wait_op s1 ! j"
      by (auto simp: in_set_conv_nth)
    show ?thesis
    proof (cases "j = ?i")
      case True then show ?thesis using s1(6) j by simp
    next
      case False then show ?thesis using s1(7,8) j arrs by simp
    qed
  qed
  then have inv1: "server_inv s1"
    using s1 sem by (simp add: server_inv_def)
  have "\<forall>m \<in> set ms. unat (request.img_id (request m)) < length (wait_op s1)"
    using Cons.prems(2) s1(7) by simp
  moreover have "length (queue_live (the_queue s1)) + length ms \<le> max_size (the_queue s1)"
    using Cons.prems(3) s1 by simp
  ultimately obtain s2 where s2: "admit_all ms s1 = Inr (replicate (length ms) 0, s2)"
    "server_inv s2" "queue_live (the_queue s2) = queue_live (the_queue s1) @ ms"
    "policy (the_queue s2) = policy (the_queue s1)"
    using Cons.IH[OF inv1] by blast
  show ?case
    using s1 s2 by simp
qed

lemma extract_n_ok:
  fixes s :: "'img server"
  assumes "server_inv s" and "n \<le> length (queue_live (the_queue s))"
  shows "\<exists>s1. extract_n n s = Inr (take n (queue_live (the_queue s)), s1) \<and> server_inv s1 \<and>
              queue_live (the_queue s1) = drop n (queue_live (the_queue s))"
  using assms
proof (induction n arbitrary: s)
  case 0
  then show ?case by simp
next
  case (Suc n)
  have inv: "queue_inv (the_queue s)" and sem: "queue_notify s = length (queue_live (the_queue s))"
    and arrs: "\<forall>a \<in> set (wait_op s). arr_inv a"
    using Suc.prems(1) by (auto simp: server_inv_def)
  have some: "available (the_queue s) < max_size (the_queue s)" and sem0: "queue_notify s \<noteq> 0"
    using Suc.prems(2) sem by (auto simp: length_queue_live)
  from get_from_queue_ok[OF inv some sem0]
  obtain s1 where s1: "get_from_queue s = Inr (requests (the_queue s) ! rd_pos (the_queue s), s1)"
    "queue_inv (the_queue s1)"
    "queue_live (the_queue s) = requests (the_queue s) ! rd_pos (the_queue s) # queue_live (the_queue s1)"
    "queue_notify s1 + 1 = queue_notify s" "wait_op s1 = wait_op s"
    by blast
  have inv1: "server_inv s1"
    using s1 sem arrs by (simp add: server_inv_def)
  have "n \<le> length (queue_live (the_queue s1))"
    using Suc.prems(2) s1(3) by simp
  from Suc.IH[OF inv1 this]
  obtain s2 where s2: "extract_n n s1 = Inr (take n (queue_live (the_queue s1)), s2)"
    "server_inv s2" "queue_live (the_queue s2) = drop n (queue_live (the_queue s1))"
    by blast
  show ?case
    using s1(1) s2 by (simp add: s1(3))
qed


lemma c_rem_nonneg: "0 \<le> a \<Longrightarrow> 0 < b \<Longrightarrow> c_rem a b = a mod b"
  by (cases "a = 0") (simp_all add: c_rem_def)

lemma hw5_live_pop:
  assumes QS: "0 < QS" and h: "0 \<le> head q" "head q < QS" and sz: "1 < qsize q"
  shows "hw5_live QS q =
           items q ! nat (head q) #
           hw5_live QS (q\<lparr>head := (head q + 1) mod QS, qsize := qsize q - 1\<rparr>)"
proof -
  define k where "k = nat (qsize q - 1)"
  have n: "nat (qsize q) = Suc k" using sz by (simp add: k_def)
  have shift: "((head q + 1) mod QS + int j) mod QS = (head q + int (Suc j)) mod QS" for j
    by (simp add: mod_add_left_eq add.assoc)
  have "hw5_live QS q = map (\<lambda>j. items q ! nat ((head q + int j) mod QS)) (0 # map Suc [0..<k])"
    unfolding hw5_live_def n by (simp add: upt_conv_Cons map_Suc_upt del: upt_Suc)
  also have "\<dots> = items q ! nat (head q) #
                   map (\<lambda>j. items q ! nat (((head q + 1) mod QS + int j) mod QS)) [0..<k]"
    using h by (simp add: shift comp_def del: of_nat_Suc)
  finally show ?thesis
    by (simp add: hw5_live_def k_def)
qed

lemma fifo_get_from_queue_ok:
  assumes inv: "hw5_inv QS q" and some: "0 < qsize q"
  shows "\<exists>q'. fifo_get_from_queue QS uninit q = Inr (items q ! nat (head q), q') \<and>
              qsize q' = qsize q - 1 \<and>
              head q' = (if qsize q = 1 then - 1 else (head q + 1) mod QS) \<and>
              tail q' = (if qsize q = 1 then - 1 else tail q) \<and>
              items q' = items q \<and>
              hw5_live QS q = items q ! nat (head q) # hw5_live QS q' \<and>
              hw5_inv QS q'"
proof -
  have Q: "0 < QS" "QS \<le> QUEUE_MAX" "int (length (items q)) = QUEUE_MAX" "qsize q \<le> QS"
    and h: "0 \<le> head q" "head q < QS" and t: "tail q = (head q + qsize q - 1) mod QS"
    using inv some by (auto simp: hw5_inv_def)
  have inb: "in_items q (head q)"
    using Q h by (simp add: in_items_def)
  have rem: "c_rem (head q + 1) QS = (head q + 1) mod QS"
    using h Q by (intro c_rem_nonneg) simp_all
  show ?thesis
  proof (cases "qsize q = 1")
    case True
    have "hw5_live QS q = [items q ! nat (head q)]"
      using True h by (simp add: hw5_live_def)
    then show ?thesis
      using True inb Q rem
      by (simp add: fifo_get_from_queue_def Let_def hw5_live_def hw5_inv_def)
  next
    case False
    then have sz: "1 < qsize q" using some by simp
    have "((head q + 1) mod QS + (qsize q - 1) - 1) mod QS
          = ((head q + 1) mod QS + (qsize q - 2)) mod QS"
      by (simp add: algebra_simps)
    also have "\<dots> = (head q + 1 + (qsize q - 2)) mod QS"
      by (rule mod_add_left_eq)
    also have "head q + 1 + (qsize q - 2) = head q + qsize q - 1"
      by simp
    finally have "(head q + qsize q - 1) mod QS = ((head q + 1) mod QS + (qsize q - 1) - 1) mod QS"
      by simp
    then show ?thesis
      using False sz inb Q rem t hw5_live_pop[OF Q(1) h sz]
      by (simp add: fifo_get_from_queue_def Let_def hw5_inv_def)
  qed
qed


lemma parse_opts_bad_policy:
  "Opt_p a \<in> set opts \<Longrightarrow> a \<noteq> ''FIFO'' \<Longrightarrow> parse_opts strtol opts cp = Inl EXIT_FAILURE"
  by (induction strtol opts cp rule: parse_opts.induct) auto

lemma parse_opts_fifo:
  "parse_opts strtol opts cp = Inr cp' \<Longrightarrow> queue_policy cp = QUEUE_FIFO \<Longrightarrow>
     queue_policy cp' = QUEUE_FIFO"
  by (induction strtol opts cp rule: parse_opts.induct) (auto split: if_splits)

lemma main_args_bad_policy:
  assumes "Opt_p a \<in> set opts" "a \<noteq> ''FIFO''"
  shows "main_args strtol opts positional = Inl EXIT_FAILURE"
  using parse_opts_bad_policy[OF assms] by (simp add: main_args_def)

lemma main_args_fifo:
  assumes "main_args strtol opts positional = Inr (cp, port)"
  shows "queue_policy cp = QUEUE_FIFO" and "\<forall>a. Opt_p a \<in> set opts \<longrightarrow> a = ''FIFO''"
proof -
  from assms obtain cp0 where
    p: "parse_opts strtol opts \<lparr>queue_size = 0, workers = 1, queue_policy = QUEUE_FIFO\<rparr> = Inr cp0"
    and cp: "cp = cp0"
    by (auto simp: main_args_def split: sum.splits if_splits list.splits)
  show "queue_policy cp = QUEUE_FIFO"
    using parse_opts_fifo[OF p] cp by simp
  show "\<forall>a. Opt_p a \<in> set opts \<longrightarrow> a = ''FIFO''"
    using main_args_bad_policy[of _ opts strtol positional] assms by fastforce
qed

lemma admit_then_extract:
  fixes s0 :: "'img server"
  assumes n: "0 < n" "n < 2 ^ 64" "length mem = n" and q: "the_queue s0 = queue_init mem n p"
    and sem: "queue_notify s0 = 0" and arrs: "\<forall>a \<in> set (wait_op s0). arr_inv a"
    and ids: "\<forall>m \<in> set ms. unat (request.img_id (request m)) < length (wait_op s0)"
    and len: "length ms \<le> n"
  shows "\<exists>s1 s2. admit_all ms s0 = Inr (replicate (length ms) 0, s1) \<and>
                 extract_n (length ms) s1 = Inr (ms, s2)"
proof -
  have inv: "server_inv s0"
    using queue_init_inv[OF n] sem arrs by (simp add: server_inv_def q queue_init_live)
  have "length (queue_live (the_queue s0)) + length ms \<le> max_size (the_queue s0)"
    using len by (simp add: q queue_init_live) (simp add: queue_init_def)
  from admit_all_ok[OF inv ids this]
  obtain s1 where s1: "admit_all ms s0 = Inr (replicate (length ms) 0, s1)" "server_inv s1"
    "queue_live (the_queue s1) = ms"
    by (auto simp: q queue_init_live)
  from extract_n_ok[OF s1(2), of "length ms"] s1(3)
  obtain s2 where "extract_n (length ms) s1 = Inr (ms, s2)"
    by auto
  with s1(1) show ?thesis by blast
qed


lemma ex_full_facts:
  "queue_inv (the_queue ex_full)" "available (the_queue ex_full) < max_size (the_queue ex_full)"
  "queue_notify ex_full \<noteq> 0"
  "requests (the_queue ex_full) ! rd_pos (the_queue ex_full) = ex_meta (ex_request 0 IMG_OTHER 0 0)"
  "rd_pos (the_queue ex_full) = 0" "max_size (the_queue ex_full) = 2"
  "available (the_queue ex_full) = 0"
  by (simp_all add: ex_full_def ex_server_def queue_init_def queue_inv_def)

lemma hw5_ex_one_facts:
  "hw5_inv 4 hw5_ex_one" "0 < qsize hw5_ex_one" "items hw5_ex_one ! nat (head hw5_ex_one) = hw5_ex_item 5"
  "qsize hw5_ex_one = 1" "head hw5_ex_one = 0"
  by (simp_all add: hw5_ex_one_def hw5_inv_def QUEUE_MAX_def)

text \<open>
  Claim C3, as amended.  In the image server, \<^verbatim>\<open>get_from_queue\<close> on a well-formed,
  non-empty queue returns the entry at the read position, advances the read position by one
  modulo the capacity and adds exactly one to \<open>available\<close>, so the live entries are one
  fewer: the entry returned is the oldest, the others stay in order.  In the policy server,
  \<^verbatim>\<open>fifo_get_from_queue\<close> returns the entry at \<open>head\<close> and takes exactly one from the
  size; it advances \<open>head\<close> by one modulo \<^verbatim>\<open>QUEUE_SIZE\<close> unless the extraction empties
  the queue, where it resets \<open>head\<close> and \<open>tail\<close> to \<open>- 1\<close>.
\<close>

theorem fifo_extraction:
  fixes s :: "'img server" and q5 :: "'r hw5_queue"
  shows "(queue_inv (the_queue s) \<and> available (the_queue s) < max_size (the_queue s) \<and>
          queue_notify s \<noteq> 0 \<longrightarrow>
            (\<exists>s'. get_from_queue s = Inr (requests (the_queue s) ! rd_pos (the_queue s), s') \<and>
                  rd_pos (the_queue s') = (rd_pos (the_queue s) + 1) mod max_size (the_queue s) \<and>
                  available (the_queue s') = available (the_queue s) + 1 \<and>
                  length (queue_live (the_queue s')) + 1 = length (queue_live (the_queue s)) \<and>
                  queue_live (the_queue s) =
                    requests (the_queue s) ! rd_pos (the_queue s) # queue_live (the_queue s'))) \<and>
         (hw5_inv QS q5 \<and> 0 < qsize q5 \<longrightarrow>
            (\<exists>q'. fifo_get_from_queue QS uninit q5 = Inr (items q5 ! nat (head q5), q') \<and>
                  qsize q' = qsize q5 - 1 \<and>
                  head q' = (if qsize q5 = 1 then - 1 else (head q5 + 1) mod QS) \<and>
                  tail q' = (if qsize q5 = 1 then - 1 else tail q5) \<and>
                  length (hw5_live QS q') + 1 = length (hw5_live QS q5) \<and>
                  hw5_live QS q5 = items q5 ! nat (head q5) # hw5_live QS q'))"
proof (intro conjI impI)
  assume "queue_inv (the_queue s) \<and> available (the_queue s) < max_size (the_queue s) \<and>
          queue_notify s \<noteq> 0"
  then have h: "queue_inv (the_queue s)" "available (the_queue s) < max_size (the_queue s)"
    "queue_notify s \<noteq> 0"
    by simp_all
  from get_from_queue_ok[OF h]
  obtain s' where s': "get_from_queue s = Inr (requests (the_queue s) ! rd_pos (the_queue s), s')"
    "rd_pos (the_queue s') = (rd_pos (the_queue s) + 1) mod max_size (the_queue s)"
    "available (the_queue s') = available (the_queue s) + 1"
    "queue_live (the_queue s) = requests (the_queue s) ! rd_pos (the_queue s) # queue_live (the_queue s')"
    by blast
  show "\<exists>s'. get_from_queue s = Inr (requests (the_queue s) ! rd_pos (the_queue s), s') \<and>
                  rd_pos (the_queue s') = (rd_pos (the_queue s) + 1) mod max_size (the_queue s) \<and>
                  available (the_queue s') = available (the_queue s) + 1 \<and>
                  length (queue_live (the_queue s')) + 1 = length (queue_live (the_queue s)) \<and>
                  queue_live (the_queue s) =
                    requests (the_queue s) ! rd_pos (the_queue s) # queue_live (the_queue s')"
    using s' by (intro exI[of _ s']) simp
next
  assume "hw5_inv QS q5 \<and> 0 < qsize q5"
  then have h: "hw5_inv QS q5" "0 < qsize q5" by simp_all
  from fifo_get_from_queue_ok[OF h, of uninit]
  obtain q' where q': "fifo_get_from_queue QS uninit q5 = Inr (items q5 ! nat (head q5), q')"
    "qsize q' = qsize q5 - 1"
    "head q' = (if qsize q5 = 1 then - 1 else (head q5 + 1) mod QS)"
    "tail q' = (if qsize q5 = 1 then - 1 else tail q5)"
    "hw5_live QS q5 = items q5 ! nat (head q5) # hw5_live QS q'"
    by blast
  show "\<exists>q'. fifo_get_from_queue QS uninit q5 = Inr (items q5 ! nat (head q5), q') \<and>
                  qsize q' = qsize q5 - 1 \<and>
                  head q' = (if qsize q5 = 1 then - 1 else (head q5 + 1) mod QS) \<and>
                  tail q' = (if qsize q5 = 1 then - 1 else tail q5) \<and>
                  length (hw5_live QS q') + 1 = length (hw5_live QS q5) \<and>
                  hw5_live QS q5 = items q5 ! nat (head q5) # hw5_live QS q'"
    using q' by (intro exI[of _ q']) simp
qed

theorem fifo_extraction_witness:
  "(\<exists>s'. get_from_queue ex_full = Inr (ex_meta (ex_request 0 IMG_OTHER 0 0), s') \<and>
         rd_pos (the_queue s') = 1 \<and> available (the_queue s') = 1) \<and>
   (\<exists>q'. fifo_get_from_queue 4 (hw5_ex_item 0) hw5_ex_one = Inr (hw5_ex_item 5, q') \<and>
         qsize q' = 0 \<and> head q' = - 1 \<and> tail q' = - 1)"
proof -
  have "\<exists>s'. get_from_queue ex_full = Inr (ex_meta (ex_request 0 IMG_OTHER 0 0), s') \<and>
         rd_pos (the_queue s') = 1 \<and> available (the_queue s') = 1"
    using fifo_extraction[of ex_full 4 hw5_ex_one "hw5_ex_item 0"] ex_full_facts
    by fastforce
  moreover have "\<exists>q'. fifo_get_from_queue 4 (hw5_ex_item 0) hw5_ex_one = Inr (hw5_ex_item 5, q') \<and>
         qsize q' = 0 \<and> head q' = - 1 \<and> tail q' = - 1"
    using fifo_extraction[of ex_full 4 hw5_ex_one "hw5_ex_item 0"] hw5_ex_one_facts
    by fastforce
  ultimately show ?thesis by blast
qed

text \<open>The policy server on a queue of one entry: the read position does not advance by
  one modulo the capacity, it is reset.\<close>

theorem fifo_extraction_hw5_counterexample:
  "hw5_inv 4 hw5_ex_one \<and> 0 < qsize hw5_ex_one \<and>
   fifo_get_from_queue 4 (hw5_ex_item 0) hw5_ex_one =
     Inr (hw5_ex_item 5, hw5_ex_one\<lparr>head := - 1, tail := - 1, qsize := 0\<rparr>) \<and>
   head (hw5_ex_one\<lparr>head := - 1, tail := - 1, qsize := 0\<rparr>) \<noteq> (head hw5_ex_one + 1) mod 4"
  by (simp add: hw5_ex_one_facts)
    (simp add: fifo_get_from_queue_def hw5_ex_one_def in_items_def c_rem_def)

subsection \<open>The policy tag\<close>

text \<open>
  Claim C10.  In the image server the result of \<^verbatim>\<open>get_from_queue\<close> does not depend
  on the policy stored in the queue; whatever the policy the queue was initialised with,
  requests admitted to a fresh queue (no more than its capacity) come out in the order of
  admission; and \<^verbatim>\<open>main\<close> exits with failure as soon as an option \<^verbatim>\<open>-p\<close> has a
  value other than \<^verbatim>\<open>FIFO\<close> (\<^verbatim>\<open>SJN\<close> included), so the parameters it hands to the
  connection always carry the FIFO policy.
\<close>

theorem extraction_ignores_policy:
  fixes s s0 :: "'img server"
  shows "get_from_queue (s\<lparr>the_queue := (the_queue s)\<lparr>policy := p\<rparr>\<rparr>) =
           (case get_from_queue s of
              Inl e \<Rightarrow> Inl e
            | Inr (m, s') \<Rightarrow> Inr (m, s'\<lparr>the_queue := (the_queue s')\<lparr>policy := p\<rparr>\<rparr>)) \<and>
         (0 < n \<and> n < 2 ^ 64 \<and> length mem = n \<and> the_queue s0 = queue_init mem n p \<and>
          queue_notify s0 = 0 \<and> (\<forall>a \<in> set (wait_op s0). arr_inv a) \<and>
          (\<forall>m \<in> set ms. unat (request.img_id (request m)) < length (wait_op s0)) \<and>
          length ms \<le> n \<longrightarrow>
            (\<exists>s1 s2. admit_all ms s0 = Inr (replicate (length ms) 0, s1) \<and>
                     extract_n (length ms) s1 = Inr (ms, s2))) \<and>
         ((\<exists>a. Opt_p a \<in> set opts \<and> a \<noteq> ''FIFO'') \<longrightarrow>
            main_args strtol opts positional = Inl EXIT_FAILURE) \<and>
         (main_args strtol opts positional = Inr (cp, port) \<longrightarrow>
            queue_policy cp = QUEUE_FIFO \<and> (\<forall>a. Opt_p a \<in> set opts \<longrightarrow> a = ''FIFO''))"
proof (intro conjI impI)
  show "get_from_queue (s\<lparr>the_queue := (the_queue s)\<lparr>policy := p\<rparr>\<rparr>) =
           (case get_from_queue s of
              Inl e \<Rightarrow> Inl e
            | Inr (m, s') \<Rightarrow> Inr (m, s'\<lparr>the_queue := (the_queue s')\<lparr>policy := p\<rparr>\<rparr>))"
    by (rule get_from_queue_policy)
next
  assume "0 < n \<and> n < 2 ^ 64 \<and> length mem = n \<and> the_queue s0 = queue_init mem n p \<and>
          queue_notify s0 = 0 \<and> (\<forall>a \<in> set (wait_op s0). arr_inv a) \<and>
          (\<forall>m \<in> set ms. unat (request.img_id (request m)) < length (wait_op s0)) \<and>
          length ms \<le> n"
  then show "\<exists>s1 s2. admit_all ms s0 = Inr (replicate (length ms) 0, s1) \<and>
                     extract_n (length ms) s1 = Inr (ms, s2)"
    by (intro admit_then_extract[of n mem s0 p ms]) simp_all
next
  assume "\<exists>a. Opt_p a \<in> set opts \<and> a \<noteq> ''FIFO''"
  then show "main_args strtol opts positional = Inl EXIT_FAILURE"
    using main_args_bad_policy by blast
next
  assume "main_args strtol opts positional = Inr (cp, port)"
  then show "queue_policy cp = QUEUE_FIFO" and "\<forall>a. Opt_p a \<in> set opts \<longrightarrow> a = ''FIFO''"
    by (rule main_args_fifo)+
qed

theorem extraction_ignores_policy_witness:
  "(\<exists>s1 s2. admit_all [ex_meta (ex_request 1 IMG_BLUR 1 0), ex_meta (ex_request 2 IMG_SHARPEN 1 0)]
              (ex_server\<lparr>the_queue := (the_queue ex_server)\<lparr>policy := QUEUE_SJN\<rparr>\<rparr>)
            = Inr ([0, 0], s1) \<and>
            extract_n 2 s1
            = Inr ([ex_meta (ex_request 1 IMG_BLUR 1 0), ex_meta (ex_request 2 IMG_SHARPEN 1 0)], s2)) \<and>
   main_args (\<lambda>a. 2) [Opt_q ''2'', Opt_p ''SJN''] [''8080''] = Inl EXIT_FAILURE \<and>
   main_args (\<lambda>a. 2) [Opt_q ''2'', Opt_p ''FIFO''] [''8080'']
     = Inr (\<lparr>queue_size = 2, workers = 1, queue_policy = QUEUE_FIFO\<rparr>, 2)"
proof -
  let ?ms = "[ex_meta (ex_request 1 IMG_BLUR 1 0), ex_meta (ex_request 2 IMG_SHARPEN 1 0)]"
  let ?s0 = "ex_server\<lparr>the_queue := (the_queue ex_server)\<lparr>policy := QUEUE_SJN\<rparr>\<rparr>"
  let ?mem = "[ex_meta (ex_request 0 IMG_OTHER 0 0), ex_meta (ex_request 0 IMG_OTHER 0 0)]"
  have hyp: "0 < (2::nat) \<and> (2::nat) < 2 ^ 64 \<and> length ?mem = 2 \<and>
          the_queue ?s0 = queue_init ?mem 2 QUEUE_SJN \<and>
          queue_notify ?s0 = 0 \<and> (\<forall>a \<in> set (wait_op ?s0). arr_inv a) \<and>
          (\<forall>m \<in> set ?ms. unat (request.img_id (request m)) < length (wait_op ?s0)) \<and>
          length ?ms \<le> 2"
    by (simp add: ex_server_def queue_init_def arr_inv_def ex_meta_def ex_request_def)
  have bad: "\<exists>a. Opt_p a \<in> set [Opt_q ''2'', Opt_p ''SJN''] \<and> a \<noteq> ''FIFO''"
    by simp
  note inst = extraction_ignores_policy[where s = ex_server and p = QUEUE_SJN and n = 2
      and mem = ?mem and ?s0.0 = ?s0 and ms = ?ms and opts = "[Opt_q ''2'', Opt_p ''SJN'']"
      and strtol = "\<lambda>a. 2" and positional = "[''8080'']"]
  have "\<exists>s1 s2. admit_all ?ms ?s0 = Inr ([0, 0], s1) \<and> extract_n 2 s1 = Inr (?ms, s2)"
    using inst hyp by (simp add: numeral_2_eq_2)
  moreover have "main_args (\<lambda>a. 2) [Opt_q ''2'', Opt_p ''SJN''] [''8080''] = Inl EXIT_FAILURE"
    using inst bad by blast
  moreover have "main_args (\<lambda>a. 2) [Opt_q ''2'', Opt_p ''FIFO''] [''8080'']
     = Inr (\<lparr>queue_size = 2, workers = 1, queue_policy = QUEUE_FIFO\<rparr>, 2)"
    by (simp add: main_args_def size_t_of_long_def in_port_t_of_long_def)
  ultimately show ?thesis by blast
qed


section \<open>Properties of the image store\<close>

lemma unat_succ: "unat (c :: u64) + 1 < 2 ^ 64 \<Longrightarrow> unat (c + 1) = Suc (unat c)"
  by (simp add: unat_word_ariths)

lemma realloc_cells_one:
  "length xs = n \<Longrightarrow> (realloc_cells fill (Suc n) xs)[n := x] = xs @ [x]"
  by (auto simp: realloc_cells_def)

lemma register_new_image_locked_ok:
  fixes s :: "'img server"
  assumes inv: "store_inv s" and nowrap: "length (images s) + 1 < 2 ^ 64"
  shows "\<exists>s'. register_new_image_locked fill new_img s = Inr s' \<and>
              image_counter s' = image_counter s + 1 \<and>
              images s' = images s @ [new_img] \<and>
              store_inv s' \<and>
              length (wait_op s') = Suc (length (images s)) \<and>
              wait_op s' ! length (images s) = \<lparr>request_ids = [], count = 0, capacity = 0\<rparr> \<and>
              the_queue s' = the_queue s \<and> queue_notify s' = queue_notify s \<and>
              sock s' = sock s \<and> stdout s' = stdout s"
proof -
  define n where "n = length (images s)"
  have c: "unat (image_counter s + 1) = Suc n" "unat (image_counter s) = n"
    using inv nowrap by (simp_all add: store_inv_def n_def unat_succ)
  have len: "length (images s) = n" by (simp add: n_def)
  show ?thesis
    using len
    by (simp add: register_new_image_locked_def Let_def c store_inv_def
        realloc_cells_one[OF len] realloc_cells_one[OF refl])
qed

lemma register_new_image_ok:
  fixes s :: "'img server"
  assumes inv: "store_inv s" and nowrap: "length (images s) + 1 < 2 ^ 64"
  shows "\<exists>s'. register_new_image fill new_img rq s = Inr s' \<and>
              image_counter s' = image_counter s + 1 \<and>
              images s' = images s @ [new_img] \<and>
              store_inv s' \<and>
              sock s' = sock s @ [Header \<lparr>response.req_id = request.req_id rq,
                                          response.img_id = image_counter s,
                                          ack = RESP_COMPLETED\<rparr>] \<and>
              length (wait_op s') = Suc (length (images s)) \<and>
              wait_op s' ! length (images s) = \<lparr>request_ids = [], count = 0, capacity = 0\<rparr> \<and>
              the_queue s' = the_queue s \<and> queue_notify s' = queue_notify s \<and>
              stdout s' = stdout s"
proof -
  define n where "n = length (images s)"
  have c: "unat (image_counter s + 1) = Suc n" "unat (image_counter s) = n"
    using inv nowrap by (simp_all add: store_inv_def n_def unat_succ)
  have len: "length (images s) = n" by (simp add: n_def)
  show ?thesis
    using len
    by (simp add: register_new_image_def register_new_image_locked_def
        register_new_image_reply_def Let_def c store_inv_def realloc_cells_one[OF len]
        realloc_cells_one[OF refl])
qed

lemma worker_publish_retrieve:
  "img_op r = IMG_RETRIEVE \<Longrightarrow> worker_publish r im s = Inr (request.img_id r, s)"
  by (simp add: worker_publish_def)

lemma worker_publish_overwrite:
  assumes "img_op r \<noteq> IMG_RETRIEVE" "overwrite r \<noteq> 0" "unat (request.img_id r) < length (images s)"
  shows "worker_publish r im s =
           Inr (request.img_id r, s\<lparr>images := (images s)[unat (request.img_id r) := Some im]\<rparr>)"
  using assms by (simp add: worker_publish_def)

lemma worker_publish_append:
  fixes s :: "'img server"
  assumes "img_op r \<noteq> IMG_RETRIEVE" "overwrite r = 0"
    and inv: "store_inv s" and nowrap: "length (images s) + 1 < 2 ^ 64"
  shows "worker_publish r im s =
           Inr (image_counter s,
                s\<lparr>image_counter := image_counter s + 1, images := images s @ [Some im]\<rparr>)"
proof -
  define n where "n = length (images s)"
  have c: "unat (image_counter s + 1) = Suc n" "unat (image_counter s) = n"
    using inv nowrap by (simp_all add: store_inv_def n_def unat_succ)
  have len: "length (images s) = n" by (simp add: n_def)
  show ?thesis
    using assms(1,2) by (simp add: worker_publish_def Let_def c realloc_cells_one[OF len])
qed

lemma store_step_ok:
  fixes s :: "'img server"
  assumes inv: "store_inv s" and nowrap: "length (images s) + 1 < 2 ^ 64"
    and step: "store_step fill x s = Inr (a, s1)"
  shows "store_inv s1 \<and>
         (case a of
            None \<Rightarrow> length (images s1) = length (images s)
          | Some i \<Rightarrow> unat i = length (images s) \<and> length (images s1) = length (images s) + 1)"
proof (cases x)
  case (Store_register new_img)
  from register_new_image_locked_ok[OF inv nowrap, of fill new_img] step Store_register inv
  show ?thesis
    by (auto simp: store_inv_def)
next
  case (Store_publish r im)
  consider "img_op r = IMG_RETRIEVE" | "img_op r \<noteq> IMG_RETRIEVE" "overwrite r \<noteq> 0"
    | "img_op r \<noteq> IMG_RETRIEVE" "overwrite r = 0"
    by blast
  then show ?thesis
  proof cases
    case 1
    then show ?thesis
      using step Store_publish inv by (simp add: worker_publish_retrieve)
  next
    case 2
    then show ?thesis
      using step Store_publish inv
      by (auto simp: worker_publish_def store_inv_def split: if_splits)
  next
    case 3
    then show ?thesis
      using step Store_publish inv nowrap worker_publish_append[OF 3 inv nowrap, of im]
      by (auto simp: store_inv_def unat_succ)
  qed
qed

lemma store_run_ok:
  fixes s :: "'img server"
  assumes "store_inv s" and "length (images s) + length ops < 2 ^ 64"
    and "store_run fill ops s = Inr (lg, s')"
  shows "store_inv s' \<and> length (images s') = length (images s) + length lg \<and>
         (\<forall>(before, i, after) \<in> set lg.
            length (images s) \<le> before \<and> unat i = before \<and> after = before + 1) \<and>
         sorted_wrt (<) (map (fst \<circ> snd) lg)"
  using assms
proof (induction ops arbitrary: s lg)
  case Nil
  then show ?case by simp
next
  case (Cons x xs)
  from Cons.prems(3) obtain a s1 lg1 where
    step: "store_step fill x s = Inr (a, s1)" and run: "store_run fill xs s1 = Inr (lg1, s')"
    and lg: "lg = (case a of None \<Rightarrow> [] | Some i \<Rightarrow> [(length (images s), i, length (images s1))]) @ lg1"
    by (auto split: sum.splits)
  have nowrap: "length (images s) + 1 < 2 ^ 64"
    using Cons.prems(2) by simp
  note st = store_step_ok[OF Cons.prems(1) nowrap step]
  have len1: "length (images s1) \<le> length (images s) + 1" "length (images s) \<le> length (images s1)"
    using st by (auto split: option.splits)
  then have "length (images s1) + length xs < 2 ^ 64"
    using Cons.prems(2) by simp
  from Cons.IH[OF _ this run] st
  have ih: "store_inv s'" "length (images s') = length (images s1) + length lg1"
    "\<forall>(before, i, after) \<in> set lg1. length (images s1) \<le> before \<and> unat i = before \<and> after = before + 1"
    "sorted_wrt (<) (map (fst \<circ> snd) lg1)"
    by blast+
  show ?case
  proof (cases a)
    case None
    then show ?thesis
      using ih st lg by (auto simp: comp_def)
  next
    case (Some i)
    have i: "unat i = length (images s)" "length (images s1) = length (images s) + 1"
      using st Some by simp_all
    have "i < j" if "(b, j, c) \<in> set lg1" for b j c
      using ih(3) that i by (fastforce simp: word_less_nat_alt)
    then show ?thesis
      using ih i lg Some by (auto simp: comp_def)
  qed
qed

text \<open>
  Claim C5.  Along any run of registrations and publications, every identifier the store
  assigns (to a registered image, or to the result of an operation that neither overwrites
  nor retrieves) equals the length of the store just before the insertion; the store is
  exactly one longer after it; and the identifiers assigned, in the order of assignment,
  are strictly increasing, hence never reused.  The counter is assumed not to reach
  \<open>2 ^ 64\<close>.
\<close>

theorem store_ids_strictly_increasing:
  fixes s :: "'img server"
  assumes "store_inv s" and "length (images s) + length ops < 2 ^ 64"
    and "store_run fill ops s = Inr (lg, s')"
  shows "(\<forall>(before, i, after) \<in> set lg. unat i = before \<and> after = before + 1) \<and>
         sorted_wrt (<) (map (fst \<circ> snd) lg) \<and>
         distinct (map (fst \<circ> snd) lg) \<and>
         length (images s') = length (images s) + length lg"
proof -
  note r = store_run_ok[OF assms]
  have "distinct (map (fst \<circ> snd) lg)"
    using r by (simp add: strict_sorted_iff)
  then show ?thesis
    using r by fastforce
qed

lemma ex_store_run:
  "\<exists>s'. store_run (wait_op_uninit ex_io) ex_ops ex_server = Inr ([(1, 1, 2), (2, 2, 3), (3, 3, 4)], s')
        \<and> images s' = [Some 13, Some 20, Some 12, Some 30]"
  by (simp add: ex_ops_def ex_server_def ex_io_def ex_request_def register_new_image_locked_def
      worker_publish_def realloc_cells_def Let_def)

theorem store_ids_strictly_increasing_witness:
  "store_inv ex_server \<and>
   (\<exists>lg s'. store_run (wait_op_uninit ex_io) ex_ops ex_server = Inr (lg, s') \<and>
      map (fst \<circ> snd) lg = [1, 2, 3] \<and>
      (\<forall>(before, i, after) \<in> set lg. unat i = before \<and> after = before + 1) \<and>
      sorted_wrt (<) (map (fst \<circ> snd) lg) \<and> distinct (map (fst \<circ> snd) lg) \<and>
      length (images s') = 4)"
proof -
  have inv: "store_inv ex_server" and len: "length (images ex_server) + length ex_ops < 2 ^ 64"
    by (simp_all add: store_inv_def ex_server_def ex_ops_def)
  obtain s' where run:
    "store_run (wait_op_uninit ex_io) ex_ops ex_server = Inr ([(1, 1, 2), (2, 2, 3), (3, 3, 4)], s')"
    and im: "images s' = [Some 13, Some 20, Some 12, Some 30]"
    using ex_store_run by blast
  let ?lg = "[(1 :: nat, 1 :: u64, 2 :: nat), (2, 2, 3), (3, 3, 4)]"
  note T = store_ids_strictly_increasing[OF inv len run]
  have T1: "\<forall>(before, i, after) \<in> set ?lg. unat i = before \<and> after = before + 1"
    and T2: "sorted_wrt (<) (map (fst \<circ> snd) ?lg)"
    and T3: "distinct (map (fst \<circ> snd) ?lg)"
    using T by blast+
  have m: "map (fst \<circ> snd) ?lg = [1, 2, 3]"
    by simp
  have l: "length (images s') = 4"
    by (simp add: im)
  show ?thesis
    by (intro conjI exI[of _ ?lg] exI[of _ s']) (fact inv run m T1 T2 T3 l)+
qed


section \<open>Properties of the worker and of the dispatcher\<close>

lemma size_t_sub_id: "b \<le> a \<Longrightarrow> a < 2 ^ 64 \<Longrightarrow> size_t_sub a b = a - b"
proof -
  assume h: "b \<le> a" "a < 2 ^ 64"
  then have b: "b mod 2 ^ 64 = b" by simp
  have "(a + 2 ^ 64 - b) mod 2 ^ 64 = ((a - b) + 2 ^ 64) mod 2 ^ 64"
    using h by (intro arg_cong[where f = "\<lambda>x. x mod 2 ^ 64"]) linarith
  also have "\<dots> = (a - b) mod 2 ^ 64"
    by (rule mod_add_self2)
  also have "\<dots> = a - b"
    using h by simp
  finally show ?thesis
    unfolding size_t_sub_def b .
qed

lemma dump_ids_ok:
  assumes "0 < max_size q" "max_size q < 2 ^ 64" "length (requests q) = max_size q"
  shows "i < max_size q \<Longrightarrow>
         dump_ids q i n =
           Inr (map (\<lambda>j. request.req_id (request (requests q ! ((i + j) mod max_size q)))) [0..<n])"
proof (induction n arbitrary: i)
  case 0
  then show ?case by simp
next
  case (Suc n)
  have w: "size_t_wrap (i + 1) = i + 1"
    using Suc.prems assms by (intro size_t_wrap_id) simp
  have lt: "(i + 1) mod max_size q < max_size q"
    using assms by simp
  have shift: "(Suc i mod max_size q + j) mod max_size q = Suc (i + j) mod max_size q" for j
    by (simp add: mod_add_left_eq)
  have "[0..<Suc n] = 0 # map Suc [0..<n]"
    by (simp add: upt_conv_Cons map_Suc_upt del: upt_Suc)
  then have split: "map (\<lambda>j. request.req_id (request (requests q ! ((i + j) mod max_size q)))) [0..<Suc n]
        = request.req_id (request (requests q ! i)) #
          map (\<lambda>j. request.req_id (request (requests q ! (((i + 1) mod max_size q + j) mod max_size q))))
            [0..<n]"
    using Suc.prems by (simp add: shift comp_def del: upt_Suc)
  show ?case
    unfolding split using Suc.prems assms w Suc.IH[OF lt]
    by (simp del: upt_Suc)
qed

lemma dump_queue_status_ok:
  assumes "queue_inv (the_queue s)"
  shows "dump_queue_status s =
           Inr (s\<lparr>stdout := stdout s @
                  [Q_line (map (\<lambda>m. request.req_id (request m)) (queue_live (the_queue s)))]\<rparr>)"
proof -
  let ?q = "the_queue s"
  have M: "0 < max_size ?q" "max_size ?q < 2 ^ 64" "length (requests ?q) = max_size ?q"
    "rd_pos ?q < max_size ?q" "available ?q \<le> max_size ?q"
    using assms by (auto simp: queue_inv_def)
  have n: "size_t_sub (max_size ?q) (available ?q) = max_size ?q - available ?q"
    using M by (intro size_t_sub_id) simp_all
  show ?thesis
    by (simp add: dump_queue_status_def Let_def n dump_ids_ok[OF M(1,2,3,4)] queue_live_def comp_def)
qed


lemma handle_request_reject:
  assumes "img_op (rx_bytes io) \<noteq> IMG_REGISTER" "available (the_queue s) = 0"
  shows "handle_request nw io req0 s =
           Inr (req0\<lparr>request := rx_bytes io, receipt_timestamp := clk_receipt io\<rparr>,
                s\<lparr>sock := sock s @
                       [Header ((resp_uninit io)\<lparr>response.req_id := request.req_id (rx_bytes io),
                                                   ack := RESP_REJECTED\<rparr>)],
                  stdout := stdout s @
                       [X_line (request.req_id (rx_bytes io)) (req_timestamp (rx_bytes io))
                          (req_length (rx_bytes io)) (clk_receipt io)]\<rparr>)"
  using assms by (simp add: handle_request_def Let_def add_to_queue_full)

lemma handle_request_admit:
  assumes "img_op (rx_bytes io) \<noteq> IMG_REGISTER"
    and "add_to_queue (req0\<lparr>request := rx_bytes io, receipt_timestamp := clk_receipt io\<rparr>) s
           = Inr (0, s')"
  shows "handle_request nw io req0 s =
           Inr (req0\<lparr>request := rx_bytes io, receipt_timestamp := clk_receipt io\<rparr>, s')"
  using assms by (simp add: handle_request_def Let_def)



lemma ex_server_facts:
  "queue_inv (the_queue ex_server)" "store_inv ex_server" "length (images ex_server) + 1 < 2 ^ 64"
  "images ex_server = [Some 10]" "image_counter ex_server = 1" "sock ex_server = []"
  "stdout ex_server = []" "available (the_queue ex_server) \<noteq> 0"
  "wait_op ex_server = [\<lparr>request_ids = [], count = 0, capacity = 0\<rparr>]"
  "queue_live (the_queue ex_server) = []"
  by (simp_all add: ex_server_def queue_init_def queue_inv_def store_inv_def queue_live_def)

lemma ex_request_facts:
  "request (ex_meta r) = r" "img_op (ex_request i opc ow im) = opc"
  "overwrite (ex_request i opc ow im) = ow" "request.img_id (ex_request i opc ow im) = im"
  "request.req_id (ex_request i opc ow im) = i"
  by (simp_all add: ex_meta_def ex_request_def)

subsection \<open>Rejection\<close>

text \<open>
  Claim C7, on the image server: the request \<open>ex_late\<close> for image 0 meets a full queue.
  The dispatcher sends one REJECTED response and prints one line
  \<^verbatim>\<open>X<req_id>:<sent>,<length>,<receipt>\<close>; the queue, the table and the store are as
  before.  The image id of the response is whatever the local \<^verbatim>\<open>resp\<close> held (here 7),
  not the target image id of the request (0): the field is never assigned.
\<close>

theorem reject_response_img_id_uninit:
  "handle_request 1 ex_late (ex_meta (ex_request 0 IMG_OTHER 0 0)) ex_full =
     Inr (\<lparr>request = rx_bytes ex_late, receipt_timestamp = \<lparr>tv_sec = 3, tv_nsec = 0\<rparr>,
           start_timestamp = ts0, completion_timestamp = ts0\<rparr>,
          ex_full\<lparr>sock := [Header \<lparr>response.req_id = 12, response.img_id = 7,
                                    ack = RESP_REJECTED\<rparr>],
                   stdout := [X_line 12 \<lparr>tv_sec = 1, tv_nsec = 0\<rparr> \<lparr>tv_sec = 2, tv_nsec = 0\<rparr>
                                \<lparr>tv_sec = 3, tv_nsec = 0\<rparr>]\<rparr>) \<and>
   request.img_id (rx_bytes ex_late) = 0 \<and>
   response.img_id (resp_uninit ex_late) = 7"
proof -
  have "img_op (rx_bytes ex_late) \<noteq> IMG_REGISTER" "available (the_queue ex_full) = 0"
    by (simp_all add: ex_late_def ex_full_def)
  from handle_request_reject[OF this, of 1 "ex_meta (ex_request 0 IMG_OTHER 0 0)"]
  show ?thesis
    by (simp add: ex_late_def ex_io_def ex_meta_def ex_full_def ex_server_def)
qed

subsection \<open>Requests with an unknown opcode\<close>

text \<open>
  Claim C8, as amended.  A request whose opcode is none of the known ones is not rejected for
  its opcode: the dispatcher handles it like every other request that is not a registration.
  With the queue full, it answers REJECTED and prints the \<open>X\<close> line; the queue and the
  store are untouched.  With room in the queue, and a target image that has its cell in the
  table, it admits the request: nothing is sent, nothing is printed, the store is untouched.
  The switch of \<^verbatim>\<open>worker_main\<close> executes no image operation for it; and when the request
  overwrites, lines 326 to 337 store back the image that was there, so that the store is
  left as it is.
\<close>

theorem unknown_opcode_not_rejected:
  fixes s :: "'img server" and m :: request_meta
  shows "(img_op (rx_bytes io) = IMG_OTHER \<and> available (the_queue s) = 0 \<longrightarrow>
            (\<exists>m' s'. handle_request nw io req0 s = Inr (m', s') \<and>
               sock s' = sock s @
                 [Header ((resp_uninit io)\<lparr>response.req_id := request.req_id (rx_bytes io),
                                             ack := RESP_REJECTED\<rparr>)] \<and>
               stdout s' = stdout s @
                 [X_line (request.req_id (rx_bytes io)) (req_timestamp (rx_bytes io))
                    (req_length (rx_bytes io)) (clk_receipt io)] \<and>
               images s' = images s \<and> image_counter s' = image_counter s \<and>
               the_queue s' = the_queue s)) \<and>
         (img_op (rx_bytes io) = IMG_OTHER \<and> available (the_queue s) \<noteq> 0 \<and>
          queue_inv (the_queue s) \<and>
          unat (request.img_id (rx_bytes io)) < length (wait_op s) \<and>
          arr_inv (wait_op s ! unat (request.img_id (rx_bytes io))) \<longrightarrow>
            (\<exists>m' s'. handle_request nw io req0 s = Inr (m', s') \<and>
               request m' = rx_bytes io \<and>
               queue_live (the_queue s') = queue_live (the_queue s) @ [m'] \<and>
               sock s' = sock s \<and> stdout s' = stdout s \<and>
               images s' = images s \<and> image_counter s' = image_counter s)) \<and>
         (img_op (request m) = IMG_OTHER \<longrightarrow>
            apply_img_op lib (img_op (request m)) im0 = im0) \<and>
         (img_op (request m) = IMG_OTHER \<and> overwrite (request m) \<noteq> 0 \<and>
          unat (request.img_id (request m)) < length (images s) \<and>
          images s ! unat (request.img_id (request m)) = Some im0 \<longrightarrow>
            worker_publish (request m) (apply_img_op lib (img_op (request m)) im0) s =
              Inr (request.img_id (request m), s))"
proof (intro conjI impI)
  assume "img_op (rx_bytes io) = IMG_OTHER \<and> available (the_queue s) = 0"
  then have "img_op (rx_bytes io) \<noteq> IMG_REGISTER" "available (the_queue s) = 0"
    by simp_all
  from handle_request_reject[OF this, of nw req0]
  show "\<exists>m' s'. handle_request nw io req0 s = Inr (m', s') \<and>
               sock s' = sock s @
                 [Header ((resp_uninit io)\<lparr>response.req_id := request.req_id (rx_bytes io),
                                             ack := RESP_REJECTED\<rparr>)] \<and>
               stdout s' = stdout s @
                 [X_line (request.req_id (rx_bytes io)) (req_timestamp (rx_bytes io))
                    (req_length (rx_bytes io)) (clk_receipt io)] \<and>
               images s' = images s \<and> image_counter s' = image_counter s \<and>
               the_queue s' = the_queue s"
    by simp
next
  let ?rq = "req0\<lparr>request := rx_bytes io, receipt_timestamp := clk_receipt io\<rparr>"
  assume h: "img_op (rx_bytes io) = IMG_OTHER \<and> available (the_queue s) \<noteq> 0 \<and>
          queue_inv (the_queue s) \<and>
          unat (request.img_id (rx_bytes io)) < length (wait_op s) \<and>
          arr_inv (wait_op s ! unat (request.img_id (rx_bytes io)))"
  then have a: "available (the_queue s) \<noteq> 0" "queue_inv (the_queue s)"
    "unat (request.img_id (request ?rq)) < length (wait_op s)"
    "arr_inv (wait_op s ! unat (request.img_id (request ?rq)))"
    and nr: "img_op (rx_bytes io) \<noteq> IMG_REGISTER"
    by simp_all
  from add_to_queue_ok[OF a]
  obtain s' where s': "add_to_queue ?rq s = Inr (0, s')"
    "queue_live (the_queue s') = queue_live (the_queue s) @ [?rq]"
    "images s' = images s" "image_counter s' = image_counter s"
    "sock s' = sock s" "stdout s' = stdout s"
    by blast
  show "\<exists>m' s'. handle_request nw io req0 s = Inr (m', s') \<and>
               request m' = rx_bytes io \<and>
               queue_live (the_queue s') = queue_live (the_queue s) @ [m'] \<and>
               sock s' = sock s \<and> stdout s' = stdout s \<and>
               images s' = images s \<and> image_counter s' = image_counter s"
    using handle_request_admit[OF nr s'(1), of nw] s'
    by (intro exI[of _ ?rq] exI[of _ s']) simp
next
  assume "img_op (request m) = IMG_OTHER"
  then show "apply_img_op lib (img_op (request m)) im0 = im0"
    by (simp add: apply_img_op_def)
next
  assume h: "img_op (request m) = IMG_OTHER \<and> overwrite (request m) \<noteq> 0 \<and>
          unat (request.img_id (request m)) < length (images s) \<and>
          images s ! unat (request.img_id (request m)) = Some im0"
  then have same: "apply_img_op lib (img_op (request m)) im0 = im0"
    by (simp add: apply_img_op_def)
  have upd: "(images s)[unat (request.img_id (request m)) := Some im0] = images s"
    using h by (metis list_update_id)
  have "worker_publish (request m) im0 s =
          Inr (request.img_id (request m),
               s\<lparr>images := (images s)[unat (request.img_id (request m)) := Some im0]\<rparr>)"
    using h by (intro worker_publish_overwrite) simp_all
  then show "worker_publish (request m) (apply_img_op lib (img_op (request m)) im0) s =
               Inr (request.img_id (request m), s)"
    by (simp add: same upd)
qed

text \<open>
  The request of \<open>ex_io\<close>, with an unknown opcode and without overwrite, sent to a server
  with room in its queue: it is admitted, with no REJECTED response and no diagnostic.  A
  worker takes it, and what lines 326 to 337 store for it is a copy of image 0 in a new
  slot: the store has grown.
\<close>

theorem unknown_opcode_counterexample:
  "img_op (rx_bytes ex_io) = IMG_OTHER \<and>
   handle_request 1 ex_io (ex_meta (ex_request 0 IMG_OTHER 0 0)) ex_server
     = Inr (ex_unknown, ex_admitted) \<and>
   sock ex_admitted = [] \<and> stdout ex_admitted = [] \<and>
   get_from_queue ex_admitted = Inr (ex_unknown, ex_dequeued) \<and>
   worker_publish (request ex_unknown) (apply_img_op ex_lib (img_op (request ex_unknown)) 10)
     ex_dequeued = Inr (1, ex_published) \<and>
   images ex_dequeued = [Some 10] \<and> images ex_published = [Some 10, Some 10]"
proof (intro conjI)
  show "handle_request 1 ex_io (ex_meta (ex_request 0 IMG_OTHER 0 0)) ex_server
     = Inr (ex_unknown, ex_admitted)"
    by (simp add: handle_request_def add_to_queue_def img_arr_push_def Let_def ex_io_def
        ex_server_def ex_admitted_def ex_unknown_def ex_meta_def ex_request_def queue_init_def
        size_t_wrap_def realloc_cells_def)
  show "get_from_queue ex_admitted = Inr (ex_unknown, ex_dequeued)"
    by (simp add: get_from_queue_def Let_def ex_dequeued_def ex_admitted_def ex_server_def
        queue_init_def size_t_wrap_def)
  show "worker_publish (request ex_unknown) (apply_img_op ex_lib (img_op (request ex_unknown)) 10)
     ex_dequeued = Inr (1, ex_published)"
    by (simp add: worker_publish_def apply_img_op_def Let_def ex_published_def ex_dequeued_def
        ex_admitted_def ex_server_def ex_unknown_def ex_io_def ex_meta_def ex_request_def
        queue_init_def realloc_cells_def)
qed (simp_all add: ex_io_def ex_request_def ex_published_def ex_dequeued_def ex_admitted_def
      ex_server_def)

theorem unknown_opcode_not_rejected_witness:
  "(\<exists>m' s'. handle_request 1 ex_io (ex_meta (ex_request 0 IMG_OTHER 0 0)) ex_full = Inr (m', s') \<and>
       sock s' = [Header \<lparr>response.req_id = 9, response.img_id = 7, ack = RESP_REJECTED\<rparr>]) \<and>
   (\<exists>m' s'. handle_request 1 ex_io (ex_meta (ex_request 0 IMG_OTHER 0 0)) ex_server = Inr (m', s') \<and>
       request m' = rx_bytes ex_io \<and> queue_live (the_queue s') = [m'] \<and>
       sock s' = [] \<and> stdout s' = []) \<and>
   apply_img_op ex_lib IMG_OTHER 10 = (10 :: nat) \<and>
   worker_publish (ex_request 9 IMG_OTHER 1 0) (apply_img_op ex_lib IMG_OTHER 10) ex_server =
     Inr (0, ex_server)"
proof -
  have full: "available (the_queue ex_full) = 0" "sock ex_full = []"
    "resp_uninit ex_io = \<lparr>response.req_id = 99, response.img_id = 7, ack = RESP_COMPLETED\<rparr>"
    "rx_bytes ex_io = ex_request 9 IMG_OTHER 0 0"
    by (simp_all add: ex_full_def ex_server_def ex_io_def)
  have arr: "arr_inv \<lparr>request_ids = [], count = 0, capacity = 0\<rparr>"
    by (simp add: arr_inv_def)
  let ?m = "ex_meta (ex_request 9 IMG_OTHER 1 0)"
  have 1: "\<exists>m' s'. handle_request 1 ex_io (ex_meta (ex_request 0 IMG_OTHER 0 0)) ex_full = Inr (m', s') \<and>
       sock s' = [Header \<lparr>response.req_id = 9, response.img_id = 7, ack = RESP_REJECTED\<rparr>]"
    using unknown_opcode_not_rejected[where s = ex_full and io = ex_io and nw = 1
        and ?req0.0 = "ex_meta (ex_request 0 IMG_OTHER 0 0)" and m = ?m]
    by (simp add: full ex_request_facts) blast
  have 2: "\<exists>m' s'. handle_request 1 ex_io (ex_meta (ex_request 0 IMG_OTHER 0 0)) ex_server = Inr (m', s') \<and>
       request m' = rx_bytes ex_io \<and> queue_live (the_queue s') = [m'] \<and>
       sock s' = [] \<and> stdout s' = []"
    using unknown_opcode_not_rejected[where s = ex_server and io = ex_io and nw = 1
        and ?req0.0 = "ex_meta (ex_request 0 IMG_OTHER 0 0)" and m = ?m]
    by (simp add: full ex_server_facts ex_request_facts arr) blast
  have 3: "apply_img_op ex_lib IMG_OTHER 10 = (10 :: nat) \<and>
       worker_publish (ex_request 9 IMG_OTHER 1 0) (apply_img_op ex_lib IMG_OTHER 10) ex_server =
         Inr (0, ex_server)"
    using unknown_opcode_not_rejected[where s = ex_server and m = ?m and ?im0.0 = 10
        and lib = ex_lib and io = ex_io and nw = 1
        and ?req0.0 = "ex_meta (ex_request 0 IMG_OTHER 0 0)"]
    by (simp add: ex_server_facts ex_request_facts apply_img_op_def)
  from 1 2 3 show ?thesis by blast
qed


section \<open>The connection socket\<close>

text \<open>
  Claim C9, on the image server.  Worker 0 sends its header and posts the semaphore (lines 347
  to 349) and finds that its request is a RETRIEVE (352); worker 1 then takes the semaphore,
  sends its header and posts (347 to 349, 352); only then does worker 0 take the semaphore
  again and send the image (353 to 359).  Every step is enabled, and the socket carries the
  header of worker 1 between the header of worker 0 and its image: the semaphore covers each
  send, not the pair.
\<close>

theorem retrieve_payload_interleaved:
  "map_option wire (run_schedule [0, 0, 0, 0, 1, 1, 1, 1, 0, 0, 0] ex_wire) =
     Some [Header \<lparr>response.req_id = 5, response.img_id = 0, ack = RESP_COMPLETED\<rparr>,
           Header \<lparr>response.req_id = 6, response.img_id = 1, ack = RESP_COMPLETED\<rparr>,
           Payload 10] \<and>
   map_option (map at_pc \<circ> senders) (run_schedule [0, 0, 0, 0, 1, 1, 1, 1, 0, 0, 0] ex_wire) =
     Some [L362, L362]"
  by (simp add: ex_wire_def sender_step_def goto_def)


section \<open>Shortest job next in the policy server\<close>

lemma first_min_props:
  assumes "k < length xs"
    and "\<forall>j<i. key (xs ! k) \<le> key (xs ! j)"
    and "\<forall>j<k. key (xs ! k) < key (xs ! j)"
  shows "first_min key xs i k < length xs \<and>
         (\<forall>j<length xs. key (xs ! first_min key xs i k) \<le> key (xs ! j)) \<and>
         (\<forall>j<first_min key xs i k. key (xs ! first_min key xs i k) < key (xs ! j))"
  using assms
proof (induction key xs i k rule: first_min.induct)
  case (1 key xs i k)
  show ?case
  proof (cases "i < length xs")
    case False
    then have "first_min key xs i k = k" by (subst first_min.simps) simp
    moreover have "\<forall>j<length xs. key (xs ! k) \<le> key (xs ! j)"
      using False "1.prems"(2) by auto
    ultimately show ?thesis using "1.prems" by simp
  next
    case True
    show ?thesis
    proof (cases "key (xs ! i) < key (xs ! k)")
      case less: True
      have a: "\<forall>j<i + 1. key (xs ! i) \<le> key (xs ! j)"
      proof (intro allI impI)
        fix j assume "j < i + 1"
        then consider "j < i" | "j = i" by linarith
        then show "key (xs ! i) \<le> key (xs ! j)"
          using less "1.prems"(2) by cases (auto intro: less_imp_le less_le_trans)
      qed
      have b: "\<forall>j<i. key (xs ! i) < key (xs ! j)"
        using less "1.prems"(2) by (auto intro: less_le_trans)
      have "first_min key xs i k = first_min key xs (i + 1) i"
        using True less by (subst first_min.simps) simp
      then show ?thesis
        using "1.IH"(1)[OF True less True a b] by simp
    next
      case geq: False
      have a: "\<forall>j<i + 1. key (xs ! k) \<le> key (xs ! j)"
      proof (intro allI impI)
        fix j assume "j < i + 1"
        then consider "j < i" | "j = i" by linarith
        then show "key (xs ! k) \<le> key (xs ! j)"
          using geq "1.prems"(2) by cases auto
      qed
      have "first_min key xs i k = first_min key xs (i + 1) k"
        using True geq by (subst first_min.simps) simp
      then show ?thesis
        using "1.IH"(2)[OF True geq "1.prems"(1) a "1.prems"(3)] by simp
    qed
  qed
qed

lemma int_ring_slots_distinct:
  fixes h :: int
  assumes "0 \<le> a" "a < b" "b < QS"
  shows "(h + a) mod QS \<noteq> (h + b) mod QS"
proof
  assume "(h + a) mod QS = (h + b) mod QS"
  then have "QS dvd (h + b) - (h + a)"
    by (metis mod_eq_dvd_iff)
  then have "QS dvd b - a" by simp
  then show False
    using assms by (auto dest!: zdvd_imp_le)
qed


lemma length_hw5_live: "length (hw5_live QS q) = nat (qsize q)"
  by (simp add: hw5_live_def)

lemma nth_hw5_live:
  "j < nat (qsize q) \<Longrightarrow> hw5_live QS q ! j = items q ! nat ((head q + int j) mod QS)"
  by (simp add: hw5_live_def)

lemma sjn_scan_step:
  assumes "i < qsize q" "QS \<noteq> 0" "in_items q (c_rem (head q + i) QS)"
  shows "sjn_scan QS len q i ind best =
           (if len (req (items q ! nat (c_rem (head q + i) QS))) < best
            then sjn_scan QS len q (i + 1) (c_rem (head q + i) QS)
                   (len (req (items q ! nat (c_rem (head q + i) QS))))
            else sjn_scan QS len q (i + 1) ind best)"
  by (subst sjn_scan.simps) (simp add: assms Let_def)

lemma sjn_scan_ok:
  fixes q :: "'r hw5_queue" and len :: "'r \<Rightarrow> 'd::linorder"
  assumes QS: "0 < QS" "QS \<le> int (length (items q))" and h: "0 \<le> head q" "head q < QS"
    and sz: "qsize q \<le> QS"
  defines "L \<equiv> hw5_live QS q"
  shows "k < nat (qsize q) \<Longrightarrow>
         sjn_scan QS len q (int i) ((head q + int k) mod QS) (len (req (L ! k))) =
           Inr ((head q + int (first_min (\<lambda>e. len (req e)) L i k)) mod QS,
                len (req (L ! first_min (\<lambda>e. len (req e)) L i k)))"
proof (induction n \<equiv> "length L - i" arbitrary: i k)
  case 0
  then have stop: "\<not> i < length L" by simp
  then have "\<not> int i < qsize q"
    by (simp add: L_def length_hw5_live)
  then have "sjn_scan QS len q (int i) ((head q + int k) mod QS) (len (req (L ! k)))
             = Inr ((head q + int k) mod QS, len (req (L ! k)))"
    by (subst sjn_scan.simps) simp
  moreover have "first_min (\<lambda>e. len (req e)) L i k = k"
    using stop by (subst first_min.simps) simp
  ultimately show ?case by simp
next
  case (Suc n)
  then have i: "i < length L" by simp
  then have i': "int i < qsize q" "i < nat (qsize q)"
    by (simp_all add: L_def length_hw5_live)
  have rem: "c_rem (head q + int i) QS = (head q + int i) mod QS"
    using h QS by (intro c_rem_nonneg) simp_all
  have rng: "0 \<le> (head q + int i) mod QS" "(head q + int i) mod QS < QS"
    using QS by simp_all
  then have inb: "in_items q ((head q + int i) mod QS)"
    using QS unfolding in_items_def by linarith
  have cur: "items q ! nat ((head q + int i) mod QS) = L ! i"
    using i' by (simp add: L_def nth_hw5_live)
  have QS0: "QS \<noteq> 0" using QS by simp
  have suc: "int i + 1 = int (Suc i)" by simp
  have step: "sjn_scan QS len q (int i) ind best =
           (if len (req (L ! i)) < best
            then sjn_scan QS len q (int (Suc i)) ((head q + int i) mod QS) (len (req (L ! i)))
            else sjn_scan QS len q (int (Suc i)) ind best)" for ind best
    using sjn_scan_step[of "int i" q QS len ind best] i'(1) QS0 inb
    unfolding rem cur suc by blast
  have n: "n = length L - Suc i" using Suc.hyps(2) by simp
  show ?case
  proof (cases "len (req (L ! i)) < len (req (L ! k))")
    case True
    have "sjn_scan QS len q (int i) ((head q + int k) mod QS) (len (req (L ! k)))
          = sjn_scan QS len q (int (Suc i)) ((head q + int i) mod QS) (len (req (L ! i)))"
      unfolding step using True by simp
    also have "\<dots> = Inr ((head q + int (first_min (\<lambda>e. len (req e)) L (Suc i) i)) mod QS,
                len (req (L ! first_min (\<lambda>e. len (req e)) L (Suc i) i)))"
      by (rule Suc.hyps(1)[OF n i'(2)])
    also have "first_min (\<lambda>e. len (req e)) L (Suc i) i = first_min (\<lambda>e. len (req e)) L i k"
      using True i by (subst (2) first_min.simps) simp
    finally show ?thesis .
  next
    case False
    have "sjn_scan QS len q (int i) ((head q + int k) mod QS) (len (req (L ! k)))
          = sjn_scan QS len q (int (Suc i)) ((head q + int k) mod QS) (len (req (L ! k)))"
      unfolding step using False by simp
    also have "\<dots> = Inr ((head q + int (first_min (\<lambda>e. len (req e)) L (Suc i) k)) mod QS,
                len (req (L ! first_min (\<lambda>e. len (req e)) L (Suc i) k)))"
      by (rule Suc.hyps(1)[OF n Suc.prems])
    also have "first_min (\<lambda>e. len (req e)) L (Suc i) k = first_min (\<lambda>e. len (req e)) L i k"
      using False i by (subst (2) first_min.simps) simp
    finally show ?thesis .
  qed
qed


lemma sjn_shift_ok:
  fixes q :: "'r hw5_queue"
  assumes "0 < QS" "QS \<le> int (length (items q))" "0 \<le> head q" "head q < QS" "int k < QS"
  shows "\<exists>q'. sjn_shift QS q ((head q + int k) mod QS) = Some (Inr q') \<and>
              head q' = head q \<and> tail q' = tail q \<and> qsize q' = qsize q \<and>
              length (items q') = length (items q) \<and>
              (\<forall>j. 1 \<le> j \<and> j \<le> k \<longrightarrow>
                  items q' ! nat ((head q + int j) mod QS)
                    = items q ! nat ((head q + int j - 1) mod QS)) \<and>
              (\<forall>p. (\<forall>j. 1 \<le> j \<and> j \<le> k \<longrightarrow> p \<noteq> nat ((head q + int j) mod QS)) \<longrightarrow>
                  items q' ! p = items q ! p)"
  using assms
proof (induction k arbitrary: q)
  case 0
  then have "(head q + int 0) mod QS = head q" by simp
  then show ?case
    by (subst sjn_shift.simps) simp
next
  case (Suc k)
  note QS = Suc.prems(1,2) and h = Suc.prems(3,4) and k = Suc.prems(5)
  define i where "i = (head q + int (Suc k)) mod QS"
  define p where "p = (head q + int k) mod QS"
  define q1 where "q1 = q\<lparr>items := (items q)[nat i := items q ! nat p]\<rparr>"
  have slot: "0 \<le> (head q + x) mod QS" "(head q + x) mod QS < QS" for x
    using QS by simp_all
  have inb: "in_items q ((head q + x) mod QS)" for x
    using slot[of x] QS unfolding in_items_def by linarith
  have ne: "(head q + int a) mod QS \<noteq> i" if "a \<le> k" for a
    using int_ring_slots_distinct[of "int a" "int (Suc k)" QS "head q"] that k
    by (simp add: i_def)
  have "(head q + int 0) mod QS \<noteq> i" by (rule ne) simp
  then have i_head: "i \<noteq> head q" using h by simp
  have "(i - 1 + QS) mod QS = (i - 1) mod QS" by simp
  also have "\<dots> = (head q + int (Suc k) - 1) mod QS"
    unfolding i_def by (rule mod_diff_left_eq)
  also have "\<dots> = p" by (simp add: p_def)
  finally have prev: "(i - 1 + QS) mod QS = p" .
  have "0 \<le> i" using slot[of "int (Suc k)"] by (simp add: i_def)
  then have rem: "c_rem (i - 1 + QS) QS = p"
    using QS prev by (subst c_rem_nonneg) simp_all
  have ini: "in_items q i" "in_items q p"
    unfolding i_def p_def by (rule inb)+
  have step: "sjn_shift QS q i = sjn_shift QS q1 p"
    using i_head QS ini
    by (subst sjn_shift.simps) (simp add: rem q1_def)
  have q1: "head q1 = head q" "tail q1 = tail q" "qsize q1 = qsize q"
    "length (items q1) = length (items q)"
    by (simp_all add: q1_def)
  have "int k < QS" using k by simp
  from Suc.IH[of q1, unfolded q1, OF QS h this]
  obtain q' where q': "sjn_shift QS q1 p = Some (Inr q')"
    "head q' = head q" "tail q' = tail q" "qsize q' = qsize q"
    "length (items q') = length (items q)"
    "\<forall>j. 1 \<le> j \<and> j \<le> k \<longrightarrow>
        items q' ! nat ((head q + int j) mod QS) = items q1 ! nat ((head q + int j - 1) mod QS)"
    "\<forall>r. (\<forall>j. 1 \<le> j \<and> j \<le> k \<longrightarrow> r \<noteq> nat ((head q + int j) mod QS)) \<longrightarrow>
        items q' ! r = items q1 ! r"
    unfolding p_def by blast
  have old: "items q1 ! nat ((head q + int a) mod QS) = items q ! nat ((head q + int a) mod QS)"
    if "a \<le> k" for a
  proof -
    have "nat ((head q + int a) mod QS) \<noteq> nat i"
      using ne[OF that] slot[of "int a"] \<open>0 \<le> i\<close> by simp
    then show ?thesis by (simp add: q1_def)
  qed
  have moved: "items q' ! nat ((head q + int j) mod QS) = items q ! nat ((head q + int j - 1) mod QS)"
    if j1: "1 \<le> j" and j2: "j \<le> Suc k" for j
  proof (cases "j \<le> k")
    case True
    obtain a where a: "j = Suc a" using j1 by (cases j) auto
    have "items q' ! nat ((head q + int j) mod QS) = items q1 ! nat ((head q + int j - 1) mod QS)"
      using q'(6) j1 True by blast
    also have "(head q + int j - 1) mod QS = (head q + int a) mod QS"
      by (simp add: a)
    also have "items q1 ! nat ((head q + int a) mod QS) = items q ! nat ((head q + int a) mod QS)"
      using True a by (intro old) simp
    also have "(head q + int a) mod QS = (head q + int j - 1) mod QS"
      by (simp add: a)
    finally show ?thesis .
  next
    case False
    then have j: "j = Suc k" using j2 by simp
    have "\<forall>b. 1 \<le> b \<and> b \<le> k \<longrightarrow> nat i \<noteq> nat ((head q + int b) mod QS)"
      using ne slot \<open>0 \<le> i\<close> by (metis eq_nat_nat_iff)
    then have "items q' ! nat i = items q1 ! nat i"
      using q'(7) by blast
    also have "\<dots> = items q ! nat p"
    proof -
      have "nat i < length (items q)"
        using ini(1) unfolding in_items_def by linarith
      then show ?thesis by (simp add: q1_def)
    qed
    finally show ?thesis
      by (simp add: j i_def p_def)
  qed
  have kept: "items q' ! r = items q ! r"
    if "\<forall>j. 1 \<le> j \<and> j \<le> Suc k \<longrightarrow> r \<noteq> nat ((head q + int j) mod QS)" for r
  proof -
    have "items q' ! r = items q1 ! r"
      using q'(7) that by simp
    moreover have "r \<noteq> nat i"
      using that[rule_format, of "Suc k"] by (simp add: i_def)
    ultimately show ?thesis by (simp add: q1_def)
  qed
  show ?case
    unfolding i_def[symmetric] step
    using q'(1-5) moved kept by blast
qed


lemma hw5_live_after_sjn:
  fixes q q' :: "'r hw5_queue"
  assumes QS: "0 < QS" and sz: "1 < qsize q" "qsize q \<le> QS" and K: "K < nat (qsize q)"
    and q': "head q' = (head q + 1) mod QS" "qsize q' = qsize q - 1"
    and moved: "\<forall>j. 1 \<le> j \<and> j \<le> K \<longrightarrow>
                  items q' ! nat ((head q + int j) mod QS)
                    = items q ! nat ((head q + int j - 1) mod QS)"
    and kept: "\<forall>p. (\<forall>j. 1 \<le> j \<and> j \<le> K \<longrightarrow> p \<noteq> nat ((head q + int j) mod QS)) \<longrightarrow>
                  items q' ! p = items q ! p"
  shows "hw5_live QS q' = take K (hw5_live QS q) @ drop (Suc K) (hw5_live QS q)"
proof (rule nth_equalityI)
  let ?L = "hw5_live QS q"
  have lenL: "length ?L = nat (qsize q)" by (rule length_hw5_live)
  show len: "length (hw5_live QS q') = length (take K ?L @ drop (Suc K) ?L)"
    using K sz by (simp add: length_hw5_live q')
  fix j assume "j < length (hw5_live QS q')"
  then have j: "j < nat (qsize q - 1)" by (simp add: length_hw5_live q')
  then have sj: "Suc j < nat (qsize q)" "int (Suc j) < QS" using sz by simp_all
  have pos: "(head q' + int j) mod QS = (head q + int (Suc j)) mod QS"
    unfolding q' by (simp add: mod_add_left_eq add.assoc)
  have lhs: "hw5_live QS q' ! j = items q' ! nat ((head q + int (Suc j)) mod QS)"
    using j by (simp add: nth_hw5_live q' pos[unfolded q'])
  show "hw5_live QS q' ! j = (take K ?L @ drop (Suc K) ?L) ! j"
  proof (cases "j < K")
    case True
    have "items q' ! nat ((head q + int (Suc j)) mod QS)
          = items q ! nat ((head q + int (Suc j) - 1) mod QS)"
      using moved True by (metis Suc_leI Suc_le_mono le0 One_nat_def)
    also have "(head q + int (Suc j) - 1) mod QS = (head q + int j) mod QS"
      by simp
    also have "items q ! nat ((head q + int j) mod QS) = ?L ! j"
      using sj by (simp add: nth_hw5_live)
    finally show ?thesis
      using True K lhs by (simp add: nth_append lenL)
  next
    case False
    have "nat ((head q + int (Suc j)) mod QS) \<noteq> nat ((head q + int b) mod QS)"
      if "1 \<le> b" "b \<le> K" for b
    proof -
      have "(head q + int b) mod QS \<noteq> (head q + int (Suc j)) mod QS"
        using that False sj by (intro int_ring_slots_distinct) simp_all
      moreover have "0 \<le> (head q + int b) mod QS" "0 \<le> (head q + int (Suc j)) mod QS"
        using QS by simp_all
      ultimately show ?thesis by simp
    qed
    then have "items q' ! nat ((head q + int (Suc j)) mod QS)
               = items q ! nat ((head q + int (Suc j)) mod QS)"
      using kept by blast
    also have "\<dots> = ?L ! Suc j"
      using sj by (simp add: nth_hw5_live del: of_nat_Suc)
    finally show ?thesis
      using False K lhs sj by (simp add: nth_append lenL min_def)
  qed
qed


lemma sjn_get_from_queue_ok:
  fixes q :: "'r hw5_queue" and len :: "'r \<Rightarrow> 'd::linorder"
  assumes inv: "hw5_inv QS q" and some: "0 < qsize q"
  defines "L \<equiv> hw5_live QS q"
  defines "K \<equiv> first_min (\<lambda>e. len (req e)) L 0 0"
  shows "\<exists>q'. sjn_get_from_queue QS len uninit q = Some (Inr (L ! K, q')) \<and>
              K < length L \<and>
              (\<forall>j<length L. len (req (L ! K)) \<le> len (req (L ! j))) \<and>
              (\<forall>j<K. len (req (L ! K)) < len (req (L ! j))) \<and>
              hw5_live QS q' = take K L @ drop (Suc K) L \<and>
              (\<forall>j<K. items q' ! nat ((head q + 1 + int j) mod QS) = L ! j) \<and>
              qsize q' = qsize q - 1 \<and>
              head q' = (if qsize q = 1 then - 1 else (head q + 1) mod QS) \<and>
              tail q' = (if qsize q = 1 then - 1 else tail q) \<and>
              hw5_inv QS q'"
proof -
  have Q: "0 < QS" "QS \<le> QUEUE_MAX" "int (length (items q)) = QUEUE_MAX" "qsize q \<le> QS"
    and h: "0 \<le> head q" "head q < QS" and t: "tail q = (head q + qsize q - 1) mod QS"
    using inv some by (auto simp: hw5_inv_def)
  have QL: "QS \<le> int (length (items q))" using Q by simp
  have lenL: "length L = nat (qsize q)" by (simp add: L_def length_hw5_live)
  have L0: "0 < length L" using some lenL by simp
  have K: "K < length L"
    and least: "\<forall>j<length L. len (req (L ! K)) \<le> len (req (L ! j))"
    and first: "\<forall>j<K. len (req (L ! K)) < len (req (L ! j))"
    using first_min_props[of 0 L 0 "\<lambda>e. len (req e)"] L0 unfolding K_def by simp_all
  have KQ: "int K < QS" "K < nat (qsize q)" using K lenL Q by simp_all
  have inh: "in_items q (head q)"
    using h QL unfolding in_items_def by linarith
  have LK: "L ! K = items q ! nat ((head q + int K) mod QS)"
    using KQ by (simp add: L_def nth_hw5_live)
  have L00: "items q ! nat (head q) = L ! 0"
    using some h by (simp add: L_def nth_hw5_live)
  have "sjn_scan QS len q (int 0) ((head q + int 0) mod QS) (len (req (L ! 0)))
          = Inr ((head q + int K) mod QS, len (req (L ! K)))"
    unfolding K_def L_def using some by (intro sjn_scan_ok[OF Q(1) QL h Q(4)]) simp
  then have scan: "sjn_scan QS len q 0 (head q) (len (req (items q ! nat (head q))))
          = Inr ((head q + int K) mod QS, len (req (L ! K)))"
    using h by (simp add: L00)
  have "0 \<le> (head q + int K) mod QS" "(head q + int K) mod QS < QS"
    using Q by simp_all
  then have inK: "in_items q ((head q + int K) mod QS)"
    using QL unfolding in_items_def by linarith
  from sjn_shift_ok[OF Q(1) QL h KQ(1)]
  obtain q1 where q1: "sjn_shift QS q ((head q + int K) mod QS) = Some (Inr q1)"
    "head q1 = head q" "tail q1 = tail q" "qsize q1 = qsize q"
    "length (items q1) = length (items q)"
    and moved: "\<forall>j. 1 \<le> j \<and> j \<le> K \<longrightarrow>
        items q1 ! nat ((head q + int j) mod QS) = items q ! nat ((head q + int j - 1) mod QS)"
    and kept: "\<forall>p. (\<forall>j. 1 \<le> j \<and> j \<le> K \<longrightarrow> p \<noteq> nat ((head q + int j) mod QS)) \<longrightarrow>
        items q1 ! p = items q ! p"
    by blast
  have rem: "c_rem (head q + 1) QS = (head q + 1) mod QS"
    using h Q by (intro c_rem_nonneg) simp_all
  define q2 where "q2 = q1\<lparr>head := (head q + 1) mod QS, qsize := qsize q - 1\<rparr>"
  define q' where "q' = (if qsize q = 1 then q2\<lparr>head := - 1, tail := - 1\<rparr> else q2)"
  have run: "sjn_get_from_queue QS len uninit q = Some (Inr (L ! K, q'))"
    using some inh scan inK q1 Q(1)
    by (simp add: sjn_get_from_queue_def Let_def rem LK q2_def q'_def)
  have items': "items q' = items q1"
    by (simp add: q'_def q2_def)
  have front: "\<forall>j<K. items q' ! nat ((head q + 1 + int j) mod QS) = L ! j"
  proof (intro allI impI)
    fix j assume j: "j < K"
    have "items q1 ! nat ((head q + int (Suc j)) mod QS)
          = items q ! nat ((head q + int (Suc j) - 1) mod QS)"
      using moved j by (metis Suc_leI Suc_le_mono le0 One_nat_def)
    also have "(head q + int (Suc j) - 1) mod QS = (head q + int j) mod QS"
      by simp
    also have "items q ! nat ((head q + int j) mod QS) = L ! j"
      using j KQ by (simp add: L_def nth_hw5_live)
    finally have "items q1 ! nat ((head q + int (Suc j)) mod QS) = L ! j" .
    moreover have "head q + 1 + int j = head q + int (Suc j)" by simp
    ultimately show "items q' ! nat ((head q + 1 + int j) mod QS) = L ! j"
      unfolding items' by (simp only:)
  qed
  have live: "hw5_live QS q' = take K L @ drop (Suc K) L"
  proof (cases "qsize q = 1")
    case True
    then have "length L = 1" "K = 0" using lenL K by simp_all
    moreover have "hw5_live QS q' = []"
      using True by (simp add: hw5_live_def q'_def q2_def)
    ultimately show ?thesis by simp
  next
    case False
    then have sz: "1 < qsize q" using some by simp
    have "head q' = (head q + 1) mod QS" "qsize q' = qsize q - 1"
      using False by (simp_all add: q'_def q2_def)
    from hw5_live_after_sjn[OF Q(1) sz Q(4) KQ(2) this moved[folded items'] kept[folded items']]
    show ?thesis by (simp add: L_def)
  qed
  have inv': "hw5_inv QS q'"
  proof (cases "qsize q = 1")
    case True
    then show ?thesis
      using Q q1 by (simp add: hw5_inv_def q'_def q2_def)
  next
    case False
    have "((head q + 1) mod QS + (qsize q - 1) - 1) mod QS
          = ((head q + 1) mod QS + (qsize q - 2)) mod QS"
      by (simp add: algebra_simps)
    also have "\<dots> = (head q + 1 + (qsize q - 2)) mod QS"
      by (rule mod_add_left_eq)
    also have "head q + 1 + (qsize q - 2) = head q + qsize q - 1"
      by simp
    finally have "(head q + qsize q - 1) mod QS = ((head q + 1) mod QS + (qsize q - 1) - 1) mod QS"
      by simp
    then show ?thesis
      using False some Q q1 t by (simp add: hw5_inv_def q'_def q2_def)
  qed
  show ?thesis
  proof (intro exI[of _ q'] conjI)
    show "sjn_get_from_queue QS len uninit q = Some (Inr (L ! K, q'))" by (rule run)
    show "hw5_live QS q' = take K L @ drop (Suc K) L" by (rule live)
    show "hw5_inv QS q'" by (rule inv')
    show "\<forall>j<K. items q' ! nat ((head q + 1 + int j) mod QS) = L ! j" by (rule front)
  qed (use K least first q1 in \<open>simp_all add: q'_def q2_def\<close>)
qed

text \<open>
  Claim C4, as amended.  On a well-formed, non-empty queue of the policy server,
  \<^verbatim>\<open>sjn_get_from_queue\<close> returns and removes the live entry with the least requested
  length, the one closest to the head among equals: position \<open>k\<close> of the live entries.  The
  \<open>k\<close> entries before it each move one slot towards it, the entries after it stay, so the
  remaining entries keep their order of admission; the size goes down by exactly one.  The
  head advances by one modulo \<^verbatim>\<open>QUEUE_SIZE\<close> unless the extraction empties the queue,
  where \<open>head\<close> and \<open>tail\<close> are reset to \<open>- 1\<close>.
\<close>

theorem sjn_extraction:
  fixes q :: "'r hw5_queue" and len :: "'r \<Rightarrow> 'd::linorder"
  assumes "hw5_inv QS q" and "0 < qsize q"
  shows "\<exists>k q'. sjn_get_from_queue QS len uninit q = Some (Inr (hw5_live QS q ! k, q')) \<and>
           k < length (hw5_live QS q) \<and>
           (\<forall>j<length (hw5_live QS q).
              len (req (hw5_live QS q ! k)) \<le> len (req (hw5_live QS q ! j))) \<and>
           (\<forall>j<k. len (req (hw5_live QS q ! k)) < len (req (hw5_live QS q ! j))) \<and>
           (\<forall>j<k. items q' ! nat ((head q + 1 + int j) mod QS) = hw5_live QS q ! j) \<and>
           hw5_live QS q' = take k (hw5_live QS q) @ drop (Suc k) (hw5_live QS q) \<and>
           qsize q' = qsize q - 1 \<and>
           head q' = (if qsize q = 1 then - 1 else (head q + 1) mod QS) \<and>
           tail q' = (if qsize q = 1 then - 1 else tail q)"
  using sjn_get_from_queue_ok[OF assms, of len uninit] by blast

lemma hw5_ex_five_facts:
  "hw5_inv 8 hw5_ex_five" "0 < qsize hw5_ex_five"
  "hw5_live 8 hw5_ex_five = map hw5_ex_item [5, 1, 3, 2, 4]"
proof -
  have five: "[0..<5] = [0, 1, 2, 3, 4 :: nat]"
    by (simp add: upt_rec)
  show "hw5_inv 8 hw5_ex_five" "0 < qsize hw5_ex_five"
    by (simp_all add: hw5_ex_five_def hw5_inv_def QUEUE_MAX_def)
  show "hw5_live 8 hw5_ex_five = map hw5_ex_item [5, 1, 3, 2, 4]"
    by (simp add: hw5_ex_five_def hw5_live_def five)
qed

lemma ex_sjn_run:
  "\<exists>q'. sjn_get_from_queue 8 (\<lambda>x. x) (hw5_ex_item 0) hw5_ex_five = Some (Inr (hw5_ex_item 1, q'))
        \<and> head q' = 1 \<and> tail q' = 4 \<and> qsize q' = 4 \<and>
        items q' = map hw5_ex_item [5, 5, 3, 2, 4] @ replicate 1495 (hw5_ex_item 0)"
  by (simp add: sjn_get_from_queue_def sjn_scan.simps sjn_shift.simps hw5_ex_five_def in_items_def
      c_rem_def hw5_ex_item_def Let_def nth_append)


theorem sjn_extraction_witness:
  "hw5_inv 8 hw5_ex_five \<and> 0 < qsize hw5_ex_five \<and>
   (\<exists>q'. sjn_get_from_queue 8 (\<lambda>x. x) (hw5_ex_item 0) hw5_ex_five
            = Some (Inr (hw5_ex_item 1, q')) \<and>
         hw5_live 8 q' = map hw5_ex_item [5, 3, 2, 4] \<and>
         head q' = 1 \<and> tail q' = 4 \<and> qsize q' = 4)"
proof -
  let ?L = "map hw5_ex_item [5, 1, 3, 2, 4]"
  note f = hw5_ex_five_facts
  from sjn_extraction[OF f(1,2), of "\<lambda>x. x" "hw5_ex_item 0"]
  obtain k q' where r: "sjn_get_from_queue 8 (\<lambda>x. x) (hw5_ex_item 0) hw5_ex_five
                          = Some (Inr (?L ! k, q'))"
    and k: "k < length ?L"
    and live: "hw5_live 8 q' = take k ?L @ drop (Suc k) ?L"
    and rest: "qsize q' = qsize hw5_ex_five - 1"
      "head q' = (if qsize hw5_ex_five = 1 then - 1 else (head hw5_ex_five + 1) mod 8)"
      "tail q' = (if qsize hw5_ex_five = 1 then - 1 else tail hw5_ex_five)"
    unfolding f(3) by blast
  from ex_sjn_run r have "?L ! k = hw5_ex_item 1"
    by auto
  then have "k = 1"
    using k by (auto simp: nth_Cons' hw5_ex_item_def split: if_splits)
  then have "hw5_live 8 q' = map hw5_ex_item [5, 3, 2, 4]"
    using live by simp
  moreover have "head q' = 1" "tail q' = 4" "qsize q' = 4"
    using rest by (simp_all add: hw5_ex_five_def)
  ultimately show ?thesis
    using f(1,2) r \<open>?L ! k = hw5_ex_item 1\<close> by auto
qed

text \<open>On a queue of one entry the head does not advance by one: it is reset.\<close>

theorem sjn_extraction_counterexample:
  "hw5_inv 4 hw5_ex_one \<and> 0 < qsize hw5_ex_one \<and>
   sjn_get_from_queue 4 (\<lambda>x. x) (hw5_ex_item 0) hw5_ex_one =
     Some (Inr (hw5_ex_item 5, hw5_ex_one\<lparr>head := - 1, tail := - 1, qsize := 0\<rparr>)) \<and>
   head (hw5_ex_one\<lparr>head := - 1, tail := - 1, qsize := 0\<rparr>) \<noteq> (head hw5_ex_one + 1) mod 4"
  by (simp add: hw5_ex_one_facts)
    (simp add: sjn_get_from_queue_def sjn_scan.simps sjn_shift.simps hw5_ex_one_def in_items_def
      c_rem_def hw5_ex_item_def Let_def)

section \<open>Properties of the turn gate\<close>

lemma ids_at_update:
  assumes "n < length ws"
  shows "ids_at L i (ws[n := w]) +
           (if at_line (ws ! n) \<in> L \<and> gate_img (ws ! n) = i then {#gate_rid (ws ! n)#} else {#}) =
         ids_at L i ws + (if at_line w \<in> L \<and> gate_img w = i then {#gate_rid w#} else {#})"
proof -
  have m: "add_mset (ws ! n) (mset (ws[n := w])) = add_mset w (mset ws)"
    using assms by (simp add: mset_update)
  have "image_mset gate_rid (filter_mset (\<lambda>w. at_line w \<in> L \<and> gate_img w = i)
          (add_mset (ws ! n) (mset (ws[n := w])))) =
        image_mset gate_rid (filter_mset (\<lambda>w. at_line w \<in> L \<and> gate_img w = i)
          (add_mset w (mset ws)))"
    by (simp only: m)
  then show ?thesis
    by (auto simp: ids_at_def split: if_splits)
qed

lemma ids_at_same:
  assumes "n < length ws"
    and "at_line w \<in> L \<and> gate_img w = i \<longleftrightarrow> at_line (ws ! n) \<in> L \<and> gate_img (ws ! n) = i"
    and "gate_rid w = gate_rid (ws ! n)"
  shows "ids_at L i (ws[n := w]) = ids_at L i ws"
  using ids_at_update[OF assms(1), of L i w] assms(2,3) by (auto split: if_splits)

lemma ids_at_enter:
  assumes "n < length ws" "\<not> (at_line (ws ! n) \<in> L \<and> gate_img (ws ! n) = i)"
    "at_line w \<in> L" "gate_img w = i"
  shows "ids_at L i (ws[n := w]) = add_mset (gate_rid w) (ids_at L i ws)"
  using ids_at_update[OF assms(1), of L i w] assms(2-) by (auto split: if_splits)

lemma ids_at_leave:
  assumes "n < length ws" "at_line (ws ! n) \<in> L" "gate_img (ws ! n) = i"
    "\<not> (at_line w \<in> L \<and> gate_img w = i)"
  shows "add_mset (gate_rid (ws ! n)) (ids_at L i (ws[n := w])) = ids_at L i ws"
  using ids_at_update[OF assms(1), of L i w] assms(2-) by (auto split: if_splits)

lemma ids_at_member:
  assumes "n < length ws" "at_line (ws ! n) \<in> L" "gate_img (ws ! n) = i"
  shows "gate_rid (ws ! n) \<in># ids_at L i ws"
  using assms by (auto simp: ids_at_def intro!: image_eqI[where x = "ws ! n"])

lemma ids_at_mono: "L \<subseteq> L' \<Longrightarrow> ids_at L i ws \<subseteq># ids_at L' i ws"
  unfolding ids_at_def
  by (intro image_mset_subseteq_mono filter_mset_mono_strong) auto

lemma ids_at_two:
  assumes "n < length ws" "k < length ws" "n \<noteq> k"
    and "at_line (ws ! n) \<in> L" "gate_img (ws ! n) = i"
    and "at_line (ws ! k) \<in> L" "gate_img (ws ! k) = i"
  shows "2 \<le> size (ids_at L i ws)"
proof -
  let ?P = "\<lambda>w. at_line w \<in> L \<and> gate_img w = i"
  have "size (ids_at L i ws) = length (filter ?P ws)"
    by (simp add: ids_at_def flip: mset_filter)
  also have "\<dots> = card {j. j < length ws \<and> ?P (ws ! j)}"
    by (rule length_filter_conv_card)
  also have "\<dots> \<ge> card {n, k}"
    by (rule card_mono) (use assms in auto)
  finally show ?thesis using assms(3) by simp
qed

lemma add_to_queue_cases:
  fixes s :: "'img server"
  assumes run: "add_to_queue m s = Inr (res, s')" and inv: "queue_inv (the_queue s)"
  shows "(available (the_queue s) = 0 \<and> res = 1 \<and> s' = s) \<or>
         (available (the_queue s) \<noteq> 0 \<and> res = 0 \<and> unat (meta_img m) < length (wait_op s) \<and>
          (\<exists>a. img_arr_push (meta_rid m) (wait_op s ! unat (meta_img m)) = Inr a \<and>
               wait_op s' = (wait_op s)[unat (meta_img m) := a]) \<and>
          queue_inv (the_queue s') \<and>
          queue_live (the_queue s') = queue_live (the_queue s) @ [m] \<and>
          queue_notify s' = queue_notify s + 1 \<and> images s' = images s \<and>
          image_counter s' = image_counter s)"
proof (cases "available (the_queue s) = 0")
  case True
  then show ?thesis using run by (simp add: add_to_queue_def)
next
  case False
  note push = queue_push[OF inv False, of m]
  have "wr_pos (the_queue s) < max_size (the_queue s)"
    "length (requests (the_queue s)) = max_size (the_queue s)" "0 < max_size (the_queue s)"
    using inv unfolding queue_inv_def by blast+
  then have len: "\<not> length (requests (the_queue s)) \<le> wr_pos (the_queue s)"
    "max_size (the_queue s) \<noteq> 0"
    by simp_all
  show ?thesis
    using run False len push
    by (auto simp: add_to_queue_def Let_def meta_img_def meta_rid_def split: if_splits sum.splits)
qed

lemma img_arr_push_ids:
  assumes "arr_inv a" "img_arr_push rid a = Inr a'"
  shows "arr_inv a'" "arr_ids a' = arr_ids a @ [rid]"
  using img_arr_push_ok[OF assms(1), of rid] assms(2) by auto

lemma get_from_queue_cases:
  fixes s :: "'img server"
  assumes run: "get_from_queue s = Inr (m, s')" and inv: "queue_inv (the_queue s)"
    and n: "queue_notify s = length (queue_live (the_queue s))"
  shows "queue_live (the_queue s) = m # queue_live (the_queue s')"
    and "queue_inv (the_queue s')"
    and "queue_notify s' = length (queue_live (the_queue s'))"
    and "wait_op s' = wait_op s" and "image_counter s' = image_counter s"
proof -
  have ne: "queue_notify s \<noteq> 0"
    using run by (auto simp: get_from_queue_def Let_def split: if_splits)
  then have some: "available (the_queue s) < max_size (the_queue s)"
    using n by (simp add: length_queue_live)
  from get_from_queue_ok[OF inv some ne] run
  have *: "queue_inv (the_queue s')" "queue_live (the_queue s) = m # queue_live (the_queue s')"
    "queue_notify s' + 1 = queue_notify s" "wait_op s' = wait_op s"
    "image_counter s' = image_counter s"
    by auto
  show "queue_live (the_queue s) = m # queue_live (the_queue s')" by (rule *)
  show "queue_inv (the_queue s')" by (rule *)
  show "queue_notify s' = length (queue_live (the_queue s'))" using *(2,3) n by simp
  show "wait_op s' = wait_op s" by (rule *)
  show "image_counter s' = image_counter s" by (rule *)
qed

lemma unat_succ_lt:
  fixes c :: u64
  assumes "unat (c + 1 - 1) < unat (c + 1)"
  shows "unat (c + 1) = Suc (unat c)"
  using assms
  by (metis add_diff_cancel_right' unat_minus_one unat_0 not_less_zero Suc_pred' unat_gt_0)

lemma register_new_image_locked_cases:
  fixes s :: "'img server"
  assumes run: "register_new_image_locked fill new_img s = Inr s'"
    and len: "length (wait_op s) \<le> unat (image_counter s)"
  shows "image_counter s' = image_counter s + 1"
    and "unat (image_counter s') = Suc (unat (image_counter s))"
    and "length (wait_op s') = Suc (unat (image_counter s))"
    and "\<forall>j<length (wait_op s). wait_op s' ! j = wait_op s ! j"
    and "wait_op s' ! unat (image_counter s) = \<lparr>request_ids = [], count = 0, capacity = 0\<rparr>"
    and "the_queue s' = the_queue s" and "queue_notify s' = queue_notify s"
proof -
  define c where "c = image_counter s + 1"
  have lt: "unat (c - 1) < unat c"
    using run by (auto simp: register_new_image_locked_def Let_def c_def split: if_splits)
  then have c: "unat c = Suc (unat (image_counter s))"
    unfolding c_def by (rule unat_succ_lt)
  have c1: "c - 1 = image_counter s" by (simp add: c_def)
  have s': "s' = s\<lparr>image_counter := c,
                    images := (realloc_cells None (unat c) (images s))[unat (c - 1) := new_img],
                    wait_op := (realloc_cells fill (unat c) (wait_op s))
                                 [unat (c - 1) := \<lparr>request_ids = [], count = 0, capacity = 0\<rparr>]\<rparr>"
    using run by (auto simp: register_new_image_locked_def Let_def c_def split: if_splits)
  have grow: "realloc_cells fill (unat c) (wait_op s) =
                wait_op s @ replicate (unat c - length (wait_op s)) fill"
    using len c by (intro realloc_cells_grow) simp
  show "image_counter s' = image_counter s + 1" by (simp add: s' c_def)
  show "unat (image_counter s') = Suc (unat (image_counter s))" by (simp add: s' c)
  show "length (wait_op s') = Suc (unat (image_counter s))" by (simp add: s' c)
  show "\<forall>j<length (wait_op s). wait_op s' ! j = wait_op s ! j"
    using len by (auto simp: s' c1 grow nth_append)
  show "wait_op s' ! unat (image_counter s) = \<lparr>request_ids = [], count = 0, capacity = 0\<rparr>"
    by (simp add: s' c1 c)
  show "the_queue s' = the_queue s" by (simp add: s')
  show "queue_notify s' = queue_notify s" by (simp add: s')
qed

lemma worker_publish_cases:
  fixes s :: "'img server"
  assumes run: "worker_publish r im s = Inr (out_id, s')"
  shows "the_queue s' = the_queue s" and "queue_notify s' = queue_notify s"
    and "wait_op s' = wait_op s"
    and "(out_id = request.img_id r \<and> image_counter s' = image_counter s) \<or>
         (out_id = image_counter s \<and> unat (image_counter s') = Suc (unat (image_counter s)))"
proof -
  have *: "the_queue s' = the_queue s \<and> queue_notify s' = queue_notify s \<and>
           wait_op s' = wait_op s \<and>
           ((out_id = request.img_id r \<and> image_counter s' = image_counter s) \<or>
            (out_id = image_counter s \<and> unat (image_counter s + 1 - 1) < unat (image_counter s + 1)
             \<and> image_counter s' = image_counter s + 1))"
    using run by (auto simp: worker_publish_def Let_def split: if_splits)
  show "the_queue s' = the_queue s" "queue_notify s' = queue_notify s" "wait_op s' = wait_op s"
    using * by blast+
  show "(out_id = request.img_id r \<and> image_counter s' = image_counter s) \<or>
         (out_id = image_counter s \<and> unat (image_counter s') = Suc (unat (image_counter s)))"
    using * unat_succ_lt[of "image_counter s"] by auto
qed

lemma dump_queue_status_cases:
  "dump_queue_status s = Inr s' \<Longrightarrow> \<exists>out. s' = s\<lparr>stdout := out\<rparr>"
  by (auto simp: dump_queue_status_def Let_def split: sum.splits)

lemma handle_request_cases:
  fixes s :: "'img server"
  assumes run: "handle_request nworkers io req0 s = Inr (rq, s')"
    and op: "img_op (rx_bytes io) \<noteq> IMG_REGISTER"
  shows "rq = req0\<lparr>request := rx_bytes io, receipt_timestamp := clk_receipt io\<rparr> \<and>
         (\<exists>res s1. add_to_queue rq s = Inr (res, s1) \<and>
               the_queue s' = the_queue s1 \<and> queue_notify s' = queue_notify s1 \<and>
               wait_op s' = wait_op s1 \<and> image_counter s' = image_counter s1)"
  using run op
  by (auto simp: handle_request_def Let_def split: sum.splits if_splits)

lemma handle_register_trace_cases:
  fixes s :: "'img server"
  assumes run: "handle_register_trace nworkers t_done req1 s = Inr (rq, s')"
  shows "the_queue s' = the_queue s" and "queue_notify s' = queue_notify s"
    and "wait_op s' = wait_op s" and "image_counter s' = image_counter s"
  using run
  by (auto simp: handle_register_trace_def Let_def split: sum.splits
      dest!: dump_queue_status_cases)

lemma img_arr_pop_ids:
  assumes "arr_inv a" "img_arr_pop a = Inr a'"
  shows "arr_inv a'" "arr_ids a' = tl (arr_ids a)"
proof -
  have c: "0 < count a" "count a \<le> length (request_ids a)"
    and a': "a' = a\<lparr>request_ids := take (count a - 1) (tl (request_ids a)) @
                                      drop (count a - 1) (request_ids a),
                     count := count a - 1\<rparr>"
    using assms(2) by (auto simp: img_arr_pop_def split: if_splits)
  show "arr_inv a'" using assms(1) c by (auto simp: a' arr_inv_def)
  show "arr_ids a' = tl (arr_ids a)" using c by (simp add: a' arr_ids_def tl_take)
qed

lemma not_my_turn_head:
  assumes "arr_inv a" "arr_ids a \<noteq> []" "not_my_turn rid a = Inr False"
  shows "hd (arr_ids a) = rid"
proof -
  have "0 < count a" "request_ids a \<noteq> []"
    using assms(2) by (auto simp: arr_ids_def)
  then show ?thesis
    using assms(3) by (auto simp: not_my_turn_def arr_ids_def hd_conv_nth split: if_splits)
qed

lemma admitted_append [simp]: "admitted (a @ b) = admitted a @ admitted b"
  by (induction a rule: admitted.induct) simp_all

lemma started_append [simp]: "started (a @ b) = started a @ started b"
  by (induction a rule: started.induct) simp_all

lemma ids_for_append [simp]: "ids_for i (a @ b) = ids_for i a @ ids_for i b"
  by (simp add: ids_for_def)

lemma ids_for_Nil [simp]: "ids_for i [] = []"
  by (simp add: ids_for_def)

lemma ids_for_single:
  "ids_for i [m] = (if meta_img m = i then [meta_rid m] else [])"
  by (simp add: ids_for_def)

lemma ids_for_Cons:
  "ids_for i (m # ms) = (if meta_img m = i then [meta_rid m] else []) @ ids_for i ms"
  by (simp add: ids_for_def)

lemma ids_for_none: "\<forall>m\<in>set ms. meta_img m \<noteq> i \<Longrightarrow> ids_for i ms = []"
  by (simp add: ids_for_def filter_empty_conv)

lemma ids_at_none:
  "\<forall>n<length ws. \<not> (at_line (ws ! n) \<in> L \<and> gate_img (ws ! n) = i) \<Longrightarrow> ids_at L i ws = {#}"
proof -
  assume a: "\<forall>n<length ws. \<not> (at_line (ws ! n) \<in> L \<and> gate_img (ws ! n) = i)"
  have "filter (\<lambda>w. at_line w \<in> L \<and> gate_img w = i) ws = []"
    unfolding filter_empty_conv using a by (metis in_set_conv_nth)
  then show ?thesis
    by (simp add: ids_at_def flip: mset_filter)
qed

lemma gate_inv_init:
  assumes "0 < queue_size cp" "queue_size cp < 2 ^ 64" "length mem = queue_size cp"
  shows "gate_inv (gate_init mem cp req0 w0) []"
  using assms queue_init_inv[of "queue_size cp" mem "queue_policy cp"]
  by (simp add: gate_inv_def gate_init_def queue_init_live inv_reg_def inv_adm_def inv_sem_def
      inv_loc_def inv_ord_def inv_fly_def inv_turn_def local_lines_def pointer_lines_def)

lemma gate_inv_D:
  assumes "gate_inv s tr"
  shows "queue_inv (the_queue (srv s))"
    and "queue_notify (srv s) = length (queue_live (the_queue (srv s)))"
    and "length (wait_op (srv s)) \<le> unat (image_counter (srv s))"
    and "length (img_semaphores s) \<le> unat (image_counter (srv s))"
    and "inv_reg tr (wait_op (srv s)) (img_semaphores s)"
    and "inv_adm tr (wait_op (srv s)) (queue_live (the_queue (srv s))) (gate_workers s)"
    and "inv_sem tr (img_semaphores s) (gate_workers s)"
    and "inv_loc tr (image_counter (srv s)) (gate_workers s)"
    and "inv_ord tr (wait_op (srv s)) (gate_workers s)"
    and "inv_fly tr (wait_op (srv s)) (queue_live (the_queue (srv s))) (gate_workers s)"
    and "inv_turn tr (wait_op (srv s)) (gate_workers s)"
  using assms unfolding gate_inv_def by blast+

lemma gate_dispatch_register_inv:
  fixes s :: "'img gate_state"
  assumes inv: "gate_inv s tr" and run: "gate_dispatch io g moved s = Inr (s', ev)"
    and ln: "conn_line s = L535" and op: "img_op (rx_bytes io) = IMG_REGISTER"
  shows "gate_inv s' (tr @ ev)"
proof -
  note I = gate_inv_D[OF inv]
  define wo sems ws live K where "wo = wait_op (srv s)" and "sems = img_semaphores s"
    and "ws = gate_workers s" and "live = queue_live (the_queue (srv s))"
    and "K = image_counter (srv s)"
  note defs = wo_def sems_def ws_def live_def K_def
  obtain srv1 where
    r: "register_new_image_locked (wait_op_uninit io) (rx_image io) (srv s) = Inr srv1"
    using run ln op by (auto simp: gate_dispatch_def split: sum.splits)
  note reg = register_new_image_locked_cases[OF r I(3)]
  have c: "image_counter srv1 = K + 1" "image_counter srv1 - 1 = K"
    "unat (image_counter srv1) = Suc (unat K)"
    using reg(1,2) by (simp_all add: K_def)
  define sems' where "sems' = (realloc_cells g (Suc (unat K)) sems)[unat K := 1]"
  have s': "srv s' = srv1" "img_semaphores s' = sems'" "gate_workers s' = ws"
    and ev: "ev = [Registered K]"
    using run r ln op c
    by (auto simp: gate_dispatch_def Let_def sems'_def defs split: if_splits)
  have q': "the_queue srv1 = the_queue (srv s)" "queue_notify srv1 = queue_notify (srv s)"
    using reg by simp_all
  have lwo: "length wo \<le> unat K" and lsems: "length sems \<le> unat K"
    using I(3,4) by (simp_all add: defs)
  have wo': "length (wait_op srv1) = Suc (unat K)" "\<And>j. j < length wo \<Longrightarrow> wait_op srv1 ! j = wo ! j"
    "wait_op srv1 ! unat K = \<lparr>request_ids = [], count = 0, capacity = 0\<rparr>"
    using reg(3,4,5) by (simp_all add: defs)
  have grow: "realloc_cells g (Suc (unat K)) sems = sems @ replicate (Suc (unat K) - length sems) g"
    using lsems by (intro realloc_cells_grow) simp
  have sm': "length sems' = Suc (unat K)" "\<And>j. j < length sems \<Longrightarrow> sems' ! j = sems ! j"
    "sems' ! unat K = 1"
    using lsems by (auto simp: sems'_def grow nth_append)
  have old: "unat i < length wo \<and> unat i < length sems \<and> arr_inv (wo ! unat i) \<and> i \<noteq> K \<and>
             unat i < unat K"
    if "Registered i \<in> set tr" for i
    using I(5) that lwo unfolding inv_reg_def defs[symmetric] by auto
  have adm: "set live \<subseteq> set (admitted tr)"
    "\<And>n. n < length ws \<Longrightarrow> at_line (ws ! n) \<noteq> L282 \<Longrightarrow>
       request (req_w (ws ! n)) \<in> request ` set (admitted tr)"
    "\<And>m. m \<in> set (started tr) \<Longrightarrow> request m \<in> request ` set (admitted tr)"
    "\<And>m. m \<in> set (admitted tr) \<Longrightarrow> unat (meta_img m) < length wo"
    using I(6) unfolding inv_adm_def defs[symmetric] by blast+
  have noK: "meta_img m \<noteq> K" if "m \<in> set (admitted tr)" for m
    using adm(4)[OF that] lwo by auto
  have noK_req: "request.img_id r \<noteq> K" if "r \<in> request ` set (admitted tr)" for r
    using that noK by (auto simp: meta_img_def)
  have noK_ws: "gate_img (ws ! n) \<noteq> K" if "n < length ws" "at_line (ws ! n) \<noteq> L282" for n
    using noK_req[OF adm(2)[OF that]] by (simp add: gate_img_def)
  have noK_live: "ids_for K live = []"
    using adm(1) noK by (intro ids_for_none) auto
  have noK_adm: "ids_for K (admitted tr) = []"
    using noK by (intro ids_for_none) auto
  have noK_st: "ids_for K (started tr) = []"
  proof (intro ids_for_none ballI)
    fix m assume "m \<in> set (started tr)"
    from noK_req[OF adm(3)[OF this]] show "meta_img m \<noteq> K" by (simp add: meta_img_def)
  qed
  have noK_at: "ids_at L K ws = {#}" if "L282 \<notin> L" for L
  proof (intro ids_at_none allI impI notI, elim conjE)
    fix n assume "n < length ws" "at_line (ws ! n) \<in> L" "gate_img (ws ! n) = K"
    moreover from this that have "at_line (ws ! n) \<noteq> L282" by auto
    ultimately show False using noK_ws by blast
  qed
  have regs: "Registered i \<in> set (tr @ ev) \<longleftrightarrow> Registered i \<in> set tr \<or> i = K" for i
    by (auto simp: ev)
  have tr': "admitted (tr @ ev) = admitted tr" "started (tr @ ev) = started tr"
    by (simp_all add: ev)
  have 1: "inv_reg (tr @ ev) (wait_op srv1) sems'"
    unfolding inv_reg_def regs
  proof (intro allI impI)
    fix i assume "Registered i \<in> set tr \<or> i = K"
    then show "unat i < length (wait_op srv1) \<and> unat i < length sems' \<and>
               arr_inv (wait_op srv1 ! unat i)"
    proof
      assume "Registered i \<in> set tr"
      from old[OF this] show ?thesis using wo'(1,2) sm'(1) by simp
    next
      assume "i = K"
      then show ?thesis using wo'(1,3) sm'(1) by (simp add: arr_inv_def)
    qed
  qed
  have 2: "inv_adm (tr @ ev) (wait_op srv1) live ws"
    unfolding inv_adm_def tr'
  proof (intro conjI allI impI ballI)
    show "set live \<subseteq> set (admitted tr)" by (rule adm)
    show "request (req_w (ws ! n)) \<in> request ` set (admitted tr)"
      if "n < length ws" "at_line (ws ! n) \<noteq> L282" for n
      using adm(2)[OF that] .
    show "request m \<in> request ` set (admitted tr)" if "m \<in> set (started tr)" for m
      using adm(3)[OF that] .
    show "unat (meta_img m) < length (wait_op srv1)" if "m \<in> set (admitted tr)" for m
      using adm(4)[OF that] lwo wo'(1) by simp
  qed
  have 3: "inv_sem (tr @ ev) sems' ws"
    unfolding inv_sem_def regs
  proof (intro allI impI)
    fix i assume "Registered i \<in> set tr \<or> i = K"
    then show "size (ids_at holding_lines i ws) + sems' ! unat i \<le> 1"
    proof
      assume i: "Registered i \<in> set tr"
      then have "sems' ! unat i = sems ! unat i" using old sm'(2) by blast
      then show ?thesis using I(7) i unfolding inv_sem_def defs[symmetric] by simp
    next
      assume "i = K"
      then show ?thesis using noK_at[of holding_lines] sm'(3) by (simp add: holding_lines_def)
    qed
  qed
  have cK: "unat (K + 1) = Suc (unat K)" using c(1,3) by simp
  have 4: "inv_loc (tr @ ev) (image_counter srv1) ws"
    unfolding inv_loc_def regs c(1) cK
  proof (intro allI impI)
    fix n assume "n < length ws"
    with I(8) have
      "(at_line (ws ! n) \<in> local_lines \<longrightarrow> img_id_w (ws ! n) = gate_img (ws ! n)) \<and>
       (at_line (ws ! n) \<in> pointer_lines \<longrightarrow>
          snd (img_array_w (ws ! n)) = unat (gate_img (ws ! n))) \<and>
       (at_line (ws ! n) = L338 \<longrightarrow>
          img_id_w (ws ! n) = gate_img (ws ! n) \<or>
          (Registered (img_id_w (ws ! n)) \<notin> set tr \<and> unat (img_id_w (ws ! n)) < unat K))"
      unfolding inv_loc_def defs[symmetric] by blast
    then show
      "(at_line (ws ! n) \<in> local_lines \<longrightarrow> img_id_w (ws ! n) = gate_img (ws ! n)) \<and>
       (at_line (ws ! n) \<in> pointer_lines \<longrightarrow>
          snd (img_array_w (ws ! n)) = unat (gate_img (ws ! n))) \<and>
       (at_line (ws ! n) = L338 \<longrightarrow>
          img_id_w (ws ! n) = gate_img (ws ! n) \<or>
          (\<not> (Registered (img_id_w (ws ! n)) \<in> set tr \<or> img_id_w (ws ! n) = K) \<and>
           unat (img_id_w (ws ! n)) < Suc (unat K)))"
      by auto
  qed
  have 5: "inv_ord (tr @ ev) (wait_op srv1) ws"
    unfolding inv_ord_def regs tr'
  proof (intro allI impI)
    fix i assume "Registered i \<in> set tr \<or> i = K"
    then show "\<exists>mid. mset mid = ids_at {L301} i ws \<and>
                 ids_for i (admitted tr) = ids_for i (started tr) @ mid @ arr_ids (wait_op srv1 ! unat i)"
    proof
      assume i: "Registered i \<in> set tr"
      then have "wait_op srv1 ! unat i = wo ! unat i" using old wo'(2) by blast
      then show ?thesis using I(9) i unfolding inv_ord_def defs[symmetric] by simp
    next
      assume "i = K"
      then show ?thesis
        using noK_at[of "{L301}"] noK_adm noK_st wo'(3) by (simp add: arr_ids_def)
    qed
  qed
  have 6: "inv_fly (tr @ ev) (wait_op srv1) live ws"
    unfolding inv_fly_def regs
  proof (intro allI impI)
    fix i assume "Registered i \<in> set tr \<or> i = K"
    then show "mset (ids_for i live) + ids_at waiting_lines i ws = mset (arr_ids (wait_op srv1 ! unat i))"
    proof
      assume i: "Registered i \<in> set tr"
      then have "wait_op srv1 ! unat i = wo ! unat i" using old wo'(2) by blast
      then show ?thesis using I(10) i unfolding inv_fly_def defs[symmetric] by simp
    next
      assume "i = K"
      then show ?thesis
        using noK_at[of waiting_lines] noK_live wo'(3) by (simp add: arr_ids_def waiting_lines_def)
    qed
  qed
  have 7: "inv_turn (tr @ ev) (wait_op srv1) ws"
    unfolding inv_turn_def regs
  proof (intro allI impI, elim conjE)
    fix n assume n: "n < length ws" "at_line (ws ! n) = L296"
      and "Registered (gate_img (ws ! n)) \<in> set tr \<or> gate_img (ws ! n) = K"
    then have i: "Registered (gate_img (ws ! n)) \<in> set tr" using noK_ws[of n] by auto
    then have "wait_op srv1 ! unat (gate_img (ws ! n)) = wo ! unat (gate_img (ws ! n))"
      using old wo'(2) by blast
    then show "arr_ids (wait_op srv1 ! unat (gate_img (ws ! n))) \<noteq> [] \<and>
               hd (arr_ids (wait_op srv1 ! unat (gate_img (ws ! n)))) = gate_rid (ws ! n)"
      using I(11) i n unfolding inv_turn_def defs[symmetric] by simp
  qed
  show ?thesis
    unfolding gate_inv_def s' q'
    using I(1,2) 1 2 3 4 5 6 7 wo'(1) sm'(1) c(3)
    by (simp add: defs)
qed

lemma gate_dispatch_queue_inv:
  fixes s :: "'img gate_state"
  assumes inv: "gate_inv s tr" and run: "gate_dispatch io g moved s = Inr (s', ev)"
    and ln: "conn_line s = L535" and op: "img_op (rx_bytes io) \<noteq> IMG_REGISTER"
  shows "gate_inv s' (tr @ ev)"
proof -
  note I = gate_inv_D[OF inv]
  define wo sems ws live where "wo = wait_op (srv s)" and "sems = img_semaphores s"
    and "ws = gate_workers s" and "live = queue_live (the_queue (srv s))"
  note defs = wo_def sems_def ws_def live_def
  obtain rq srv1 where hr: "handle_request (length ws) io (conn_req s) (srv s) = Inr (rq, srv1)"
    using run ln op by (auto simp: gate_dispatch_def ws_def split: sum.splits)
  from handle_request_cases[OF hr op] obtain res s1 where
    a: "add_to_queue rq (srv s) = Inr (res, s1)"
    and eq: "the_queue srv1 = the_queue s1" "queue_notify srv1 = queue_notify s1"
      "wait_op srv1 = wait_op s1" "image_counter srv1 = image_counter s1"
    by auto
  have s': "srv s' = srv1" "img_semaphores s' = sems" "gate_workers s' = ws"
    and ev: "ev = (if available (the_queue (srv s)) = 0 then [] else [Admitted rq])"
    using run hr ln op by (auto simp: gate_dispatch_def defs)
  from add_to_queue_cases[OF a I(1)] show ?thesis
  proof (elim disjE conjE exE)
    assume "available (the_queue (srv s)) = 0" "s1 = srv s"
    then have "ev = []" "the_queue srv1 = the_queue (srv s)" "queue_notify srv1 = queue_notify (srv s)"
      "wait_op srv1 = wait_op (srv s)" "image_counter srv1 = image_counter (srv s)"
      using ev eq by simp_all
    then show ?thesis using inv by (simp add: gate_inv_def s' defs)
  next
    fix a1
    define i k where "i = meta_img rq" and "k = unat (meta_img rq)"
    assume room: "available (the_queue (srv s)) \<noteq> 0"
      and k: "unat (meta_img rq) < length (wait_op (srv s))"
      and push: "img_arr_push (meta_rid rq) (wait_op (srv s) ! unat (meta_img rq)) = Inr a1"
      and wo1: "wait_op s1 = (wait_op (srv s))[unat (meta_img rq) := a1]"
      and q1: "queue_inv (the_queue s1)" "queue_live (the_queue s1) = queue_live (the_queue (srv s)) @ [rq]"
        "queue_notify s1 = queue_notify (srv s) + 1" "image_counter s1 = image_counter (srv s)"
    have ev: "ev = [Admitted rq]" using ev room by simp
    have wo': "wait_op srv1 = wo[k := a1]" and klen: "k < length wo"
      and live': "queue_live (the_queue srv1) = live @ [rq]"
      using wo1 eq k q1 by (simp_all add: defs k_def)
    have kk: "unat j = k \<longleftrightarrow> j = i" for j
      by (simp add: k_def i_def word_unat_eq_iff)
    have irq: "meta_img rq = i" and ki: "unat i = k"
      by (simp_all add: i_def k_def)
    have regs: "Registered j \<in> set (tr @ ev) \<longleftrightarrow> Registered j \<in> set tr" for j
      by (auto simp: ev)
    have tr': "admitted (tr @ ev) = admitted tr @ [rq]" "started (tr @ ev) = started tr"
      by (simp_all add: ev)
    have old: "unat j < length wo \<and> unat j < length sems \<and> arr_inv (wo ! unat j)"
      if "Registered j \<in> set tr" for j
      using I(5) that unfolding inv_reg_def defs[symmetric] by auto
    have cell: "wo[k := a1] ! unat j = (if j = i then a1 else wo ! unat j)" for j
      using klen kk[of j] by (auto simp: nth_list_update)
    have cellk: "wo[k := a1] ! k = a1" using klen by simp
    have a1: "arr_inv a1" "arr_ids a1 = arr_ids (wo ! k) @ [meta_rid rq]" if "Registered i \<in> set tr"
      using img_arr_push_ids[OF _ push[folded k_def wo_def]] old[OF that] by (simp_all add: ki)
    have adm: "set live \<subseteq> set (admitted tr)"
      "\<And>n. n < length ws \<Longrightarrow> at_line (ws ! n) \<noteq> L282 \<Longrightarrow>
         request (req_w (ws ! n)) \<in> request ` set (admitted tr)"
      "\<And>m. m \<in> set (started tr) \<Longrightarrow> request m \<in> request ` set (admitted tr)"
      "\<And>m. m \<in> set (admitted tr) \<Longrightarrow> unat (meta_img m) < length wo"
      using I(6) unfolding inv_adm_def defs[symmetric] by blast+
    have 1: "inv_reg (tr @ ev) (wait_op srv1) sems"
      unfolding inv_reg_def regs wo'
    proof (intro allI impI)
      fix j assume j: "Registered j \<in> set tr"
      show "unat j < length (wo[k := a1]) \<and> unat j < length sems \<and> arr_inv (wo[k := a1] ! unat j)"
        using old[OF j] a1(1) j by (auto simp: cell)
    qed
    have 2: "inv_adm (tr @ ev) (wait_op srv1) (queue_live (the_queue srv1)) ws"
      unfolding inv_adm_def tr' wo' live'
    proof (intro conjI allI impI ballI)
      show "set (live @ [rq]) \<subseteq> set (admitted tr @ [rq])" using adm(1) by auto
      show "request (req_w (ws ! n)) \<in> request ` set (admitted tr @ [rq])"
        if "n < length ws" "at_line (ws ! n) \<noteq> L282" for n
        using adm(2)[OF that] by auto
      show "request m \<in> request ` set (admitted tr @ [rq])" if "m \<in> set (started tr)" for m
        using adm(3)[OF that] by auto
      show "unat (meta_img m) < length (wo[k := a1])" if "m \<in> set (admitted tr @ [rq])" for m
        using that adm(4)[of m] klen by (auto simp: k_def)
    qed
    have 3: "inv_sem (tr @ ev) sems ws"
      using I(7) unfolding inv_sem_def regs defs[symmetric] .
    have 4: "inv_loc (tr @ ev) (image_counter srv1) ws"
      using I(8) unfolding inv_loc_def regs defs[symmetric] eq q1 .
    have 5: "inv_ord (tr @ ev) (wait_op srv1) ws"
      unfolding inv_ord_def regs tr' wo'
    proof (intro allI impI)
      fix j assume j: "Registered j \<in> set tr"
      with I(9) obtain mid where mid: "mset mid = ids_at {L301} j ws"
        "ids_for j (admitted tr) = ids_for j (started tr) @ mid @ arr_ids (wo ! unat j)"
        unfolding inv_ord_def defs[symmetric] by blast
      show "\<exists>mid. mset mid = ids_at {L301} j ws \<and>
              ids_for j (admitted tr @ [rq]) = ids_for j (started tr) @ mid @ arr_ids (wo[k := a1] ! unat j)"
      proof (cases "j = i")
        case True
        then show ?thesis
          using mid a1(2) j by (intro exI[of _ mid]) (simp add: cellk ids_for_single irq ki)
      next
        case False
        then show ?thesis
          using mid by (intro exI[of _ mid]) (auto simp: cell ids_for_single irq)
      qed
    qed
    have 6: "inv_fly (tr @ ev) (wait_op srv1) (queue_live (the_queue srv1)) ws"
      unfolding inv_fly_def regs wo' live'
    proof (intro allI impI)
      fix j assume j: "Registered j \<in> set tr"
      with I(10) have f: "mset (ids_for j live) + ids_at waiting_lines j ws = mset (arr_ids (wo ! unat j))"
        unfolding inv_fly_def defs[symmetric] by blast
      show "mset (ids_for j (live @ [rq])) + ids_at waiting_lines j ws =
            mset (arr_ids (wo[k := a1] ! unat j))"
      proof (cases "j = i")
        case True
        then show ?thesis
          using f a1(2) j by (simp add: cellk ids_for_single irq ki)
      next
        case False
        then show ?thesis
          using f by (auto simp: cell ids_for_single irq)
      qed
    qed
    have 7: "inv_turn (tr @ ev) (wait_op srv1) ws"
      unfolding inv_turn_def regs wo'
    proof (intro allI impI, elim conjE)
      fix n assume n: "n < length ws" "at_line (ws ! n) = L296"
        and j: "Registered (gate_img (ws ! n)) \<in> set tr"
      with I(11) have t: "arr_ids (wo ! unat (gate_img (ws ! n))) \<noteq> []"
        "hd (arr_ids (wo ! unat (gate_img (ws ! n)))) = gate_rid (ws ! n)"
        unfolding inv_turn_def defs[symmetric] by blast+
      show "arr_ids (wo[k := a1] ! unat (gate_img (ws ! n))) \<noteq> [] \<and>
            hd (arr_ids (wo[k := a1] ! unat (gate_img (ws ! n)))) = gate_rid (ws ! n)"
      proof (cases "gate_img (ws ! n) = i")
        case True
        then show ?thesis
          using t a1(2) j by (simp add: cellk ki)
      next
        case False
        then show ?thesis using t by (simp add: cell)
      qed
    qed
    have len1: "length (wait_op srv1) = length (wait_op (srv s))"
      and n1: "queue_notify srv1 = length (queue_live (the_queue srv1))"
      and c1: "image_counter srv1 = image_counter (srv s)"
      and qi: "queue_inv (the_queue srv1)"
      using wo' live' I(2) q1 eq by (simp_all add: defs)
    show ?thesis
      unfolding gate_inv_def s' len1 c1
      using I(3,4) 1 2 3 4[unfolded c1] 5 6 7 n1 qi
      by (simp add: defs)
  qed
qed

lemma ids_at_keep:
  assumes "n < length ws" "gate_img w = gate_img (ws ! n)" "gate_rid w = gate_rid (ws ! n)"
    "at_line w \<in> L \<longleftrightarrow> at_line (ws ! n) \<in> L"
  shows "ids_at L i (ws[n := w]) = ids_at L i ws"
  using assms by (intro ids_at_same) auto

lemma ids_at_other:
  assumes "n < length ws" "gate_img (ws ! n) \<noteq> i \<or> at_line (ws ! n) \<notin> L"
    "gate_img w \<noteq> i \<or> at_line w \<notin> L"
  shows "ids_at L i (ws[n := w]) = ids_at L i ws"
  using ids_at_update[OF assms(1), of L i w] assms(2,3) by (auto split: if_splits)

lemma inv_adm_update:
  assumes "inv_adm tr wo live ws" "n < length ws"
    "at_line w \<noteq> L282 \<longrightarrow> request (req_w w) \<in> request ` set (admitted tr)"
  shows "inv_adm tr wo live (ws[n := w])"
  using assms unfolding inv_adm_def by (auto simp: nth_list_update)

lemma inv_loc_update:
  assumes "inv_loc tr c ws" "n < length ws" "unat c \<le> unat c'"
    "at_line w \<in> local_lines \<longrightarrow> img_id_w w = gate_img w"
    "at_line w \<in> pointer_lines \<longrightarrow> snd (img_array_w w) = unat (gate_img w)"
    "at_line w = L338 \<longrightarrow> img_id_w w = gate_img w \<or>
       (Registered (img_id_w w) \<notin> set tr \<and> unat (img_id_w w) < unat c')"
  shows "inv_loc tr c' (ws[n := w])"
  unfolding inv_loc_def
proof (intro allI impI)
  fix k assume k: "k < length (ws[n := w])"
  show "(at_line (ws[n := w] ! k) \<in> local_lines \<longrightarrow> img_id_w (ws[n := w] ! k) = gate_img (ws[n := w] ! k)) \<and>
        (at_line (ws[n := w] ! k) \<in> pointer_lines \<longrightarrow>
           snd (img_array_w (ws[n := w] ! k)) = unat (gate_img (ws[n := w] ! k))) \<and>
        (at_line (ws[n := w] ! k) = L338 \<longrightarrow>
           img_id_w (ws[n := w] ! k) = gate_img (ws[n := w] ! k) \<or>
           (Registered (img_id_w (ws[n := w] ! k)) \<notin> set tr \<and>
            unat (img_id_w (ws[n := w] ! k)) < unat c'))"
  proof (cases "k = n")
    case True
    then show ?thesis using assms(2,4,5,6) by simp
  next
    case False
    then have "ws[n := w] ! k = ws ! k" by simp
    moreover have "k < length ws" using k by simp
    ultimately show ?thesis
      using assms(1,3) unfolding inv_loc_def by (auto dest: order.strict_trans2)
  qed
qed

lemma inv_turn_update:
  assumes "inv_turn tr wo ws" "n < length ws"
    "at_line w = L296 \<and> Registered (gate_img w) \<in> set tr \<longrightarrow>
       arr_ids (wo ! unat (gate_img w)) \<noteq> [] \<and> hd (arr_ids (wo ! unat (gate_img w))) = gate_rid w"
  shows "inv_turn tr wo (ws[n := w])"
  using assms unfolding inv_turn_def by (auto simp: nth_list_update)

lemma inv_sem_keep:
  assumes "inv_sem tr sems ws" "n < length ws"
    "gate_img w = gate_img (ws ! n)" "gate_rid w = gate_rid (ws ! n)"
    "at_line w \<in> holding_lines \<longleftrightarrow> at_line (ws ! n) \<in> holding_lines"
  shows "inv_sem tr sems (ws[n := w])"
  using assms(1) unfolding inv_sem_def ids_at_keep[OF assms(2-5)] .

lemma inv_ord_keep:
  assumes "inv_ord tr wo ws" "n < length ws"
    "gate_img w = gate_img (ws ! n)" "gate_rid w = gate_rid (ws ! n)"
    "at_line w \<in> {L301} \<longleftrightarrow> at_line (ws ! n) \<in> {L301}"
  shows "inv_ord tr wo (ws[n := w])"
  using assms(1) unfolding inv_ord_def ids_at_keep[OF assms(2-5)] .

lemma inv_fly_keep:
  assumes "inv_fly tr wo live ws" "n < length ws"
    "gate_img w = gate_img (ws ! n)" "gate_rid w = gate_rid (ws ! n)"
    "at_line w \<in> waiting_lines \<longleftrightarrow> at_line (ws ! n) \<in> waiting_lines"
  shows "inv_fly tr wo live (ws[n := w])"
  using assms(1) unfolding inv_fly_def ids_at_keep[OF assms(2-5)] .

lemma inv_sem_acquire:
  assumes inv: "inv_sem tr sems ws" and n: "n < length ws"
    and old: "at_line (ws ! n) \<notin> holding_lines" and new: "at_line w \<in> holding_lines"
    and free: "sems ! unat (gate_img w) \<noteq> 0" and k: "unat (gate_img w) < length sems"
  shows "inv_sem tr (sems[unat (gate_img w) := sems ! unat (gate_img w) - 1]) (ws[n := w])"
  unfolding inv_sem_def
proof (intro allI impI)
  fix i assume i: "Registered i \<in> set tr"
  with inv have le: "size (ids_at holding_lines i ws) + sems ! unat i \<le> 1"
    unfolding inv_sem_def by blast
  show "size (ids_at holding_lines i (ws[n := w])) +
        sems[unat (gate_img w) := sems ! unat (gate_img w) - 1] ! unat i \<le> 1"
  proof (cases "i = gate_img w")
    case True
    have "ids_at holding_lines i (ws[n := w]) = add_mset (gate_rid w) (ids_at holding_lines i ws)"
      using n old new True by (intro ids_at_enter) auto
    moreover have "size (ids_at holding_lines i ws) = 0" "sems ! unat i = 1"
      using le free True by (simp_all del: size_eq_0_iff_empty)
    ultimately show ?thesis using k True by simp
  next
    case False
    then have "unat i \<noteq> unat (gate_img w)" by (simp add: word_unat_eq_iff)
    moreover have "ids_at holding_lines i (ws[n := w]) = ids_at holding_lines i ws"
      using n old False by (intro ids_at_other) auto
    ultimately show ?thesis using le by simp
  qed
qed

lemma inv_sem_release:
  assumes inv: "inv_sem tr sems ws" and n: "n < length ws"
    and old: "at_line (ws ! n) \<in> holding_lines" and new: "at_line w \<notin> holding_lines"
    and j: "j = gate_img (ws ! n) \<or> Registered j \<notin> set tr" and k: "unat j < length sems"
  shows "inv_sem tr (sems[unat j := sems ! unat j + 1]) (ws[n := w])"
  unfolding inv_sem_def
proof (intro allI impI)
  fix i assume i: "Registered i \<in> set tr"
  with inv have le: "size (ids_at holding_lines i ws) + sems ! unat i \<le> 1"
    unfolding inv_sem_def by blast
  show "size (ids_at holding_lines i (ws[n := w])) + sems[unat j := sems ! unat j + 1] ! unat i \<le> 1"
  proof (cases "i = gate_img (ws ! n)")
    case True
    have leave: "add_mset (gate_rid (ws ! n)) (ids_at holding_lines i (ws[n := w])) =
                   ids_at holding_lines i ws"
      using n old new True by (intro ids_at_leave) auto
    then have sz: "size (ids_at holding_lines i ws) = Suc (size (ids_at holding_lines i (ws[n := w])))"
      by (metis size_add_mset)
    show ?thesis
    proof (cases "j = i")
      case True
      then show ?thesis using le sz k by auto
    next
      case False
      then have "unat i \<noteq> unat j" by (simp add: word_unat_eq_iff)
      then show ?thesis using le sz by simp
    qed
  next
    case False
    then have "j \<noteq> i" using j i by auto
    then have "unat i \<noteq> unat j" by (simp add: word_unat_eq_iff)
    moreover have "ids_at holding_lines i (ws[n := w]) = ids_at holding_lines i ws"
      using n new False by (intro ids_at_other) auto
    ultimately show ?thesis using le by simp
  qed
qed

lemma inv_sem_out:
  assumes "inv_sem tr sems ws" "n < length ws"
    "at_line (ws ! n) \<notin> holding_lines" "at_line w \<notin> holding_lines"
  shows "inv_sem tr sems (ws[n := w])"
  using assms(1) unfolding inv_sem_def using ids_at_other[OF assms(2), of _ holding_lines w] assms(3,4)
  by simp

lemma inv_ord_out:
  assumes "inv_ord tr wo ws" "n < length ws" "at_line (ws ! n) \<noteq> L301" "at_line w \<noteq> L301"
  shows "inv_ord tr wo (ws[n := w])"
  using assms(1) unfolding inv_ord_def using ids_at_other[OF assms(2), of _ "{L301}" w] assms(3,4)
  by simp

lemma inv_fly_out:
  assumes "inv_fly tr wo live ws" "n < length ws"
    "at_line (ws ! n) \<notin> waiting_lines" "at_line w \<notin> waiting_lines"
  shows "inv_fly tr wo live (ws[n := w])"
  using assms(1) unfolding inv_fly_def using ids_at_other[OF assms(2), of _ waiting_lines w] assms(3,4)
  by simp

lemma inv_fly_dequeue:
  assumes inv: "inv_fly tr wo (m # live) ws" and n: "n < length ws"
    and old: "at_line (ws ! n) \<notin> waiting_lines" and new: "at_line w \<in> waiting_lines"
    and w: "gate_img w = meta_img m" "gate_rid w = meta_rid m"
  shows "inv_fly tr wo live (ws[n := w])"
  unfolding inv_fly_def
proof (intro allI impI)
  fix i assume "Registered i \<in> set tr"
  with inv have f: "mset (ids_for i (m # live)) + ids_at waiting_lines i ws = mset (arr_ids (wo ! unat i))"
    unfolding inv_fly_def by blast
  show "mset (ids_for i live) + ids_at waiting_lines i (ws[n := w]) = mset (arr_ids (wo ! unat i))"
  proof (cases "i = meta_img m")
    case True
    have "ids_at waiting_lines i (ws[n := w]) = add_mset (gate_rid w) (ids_at waiting_lines i ws)"
      using n old new True w by (intro ids_at_enter) auto
    then show ?thesis using f True w by (simp add: ids_for_Cons)
  next
    case False
    have "ids_at waiting_lines i (ws[n := w]) = ids_at waiting_lines i ws"
      using n old False w by (intro ids_at_other) auto
    then show ?thesis using f False by (simp add: ids_for_Cons)
  qed
qed

lemma inv_reg_cell:
  assumes "inv_reg tr wo sems" "k < length wo"
    "\<And>i. Registered i \<in> set tr \<Longrightarrow> unat i = k \<Longrightarrow> arr_inv a"
  shows "inv_reg tr (wo[k := a]) sems"
  using assms unfolding inv_reg_def by (auto simp: nth_list_update)

lemma inv_adm_cell: "inv_adm tr wo live ws \<Longrightarrow> inv_adm tr (wo[k := a]) live ws"
  unfolding inv_adm_def by simp

lemma inv_ord_pop:
  assumes inv: "inv_ord tr wo ws" and n: "n < length ws"
    and old: "at_line (ws ! n) \<noteq> L301" and new: "at_line w = L301"
    and k: "unat (gate_img w) < length wo"
    and turn: "Registered (gate_img w) \<in> set tr \<Longrightarrow>
                 arr_ids (wo ! unat (gate_img w)) = gate_rid w # arr_ids a"
  shows "inv_ord tr (wo[unat (gate_img w) := a]) (ws[n := w])"
  unfolding inv_ord_def
proof (intro allI impI)
  fix i assume i: "Registered i \<in> set tr"
  with inv obtain mid where mid: "mset mid = ids_at {L301} i ws"
    "ids_for i (admitted tr) = ids_for i (started tr) @ mid @ arr_ids (wo ! unat i)"
    unfolding inv_ord_def by blast
  show "\<exists>mid. mset mid = ids_at {L301} i (ws[n := w]) \<and>
          ids_for i (admitted tr) =
          ids_for i (started tr) @ mid @ arr_ids (wo[unat (gate_img w) := a] ! unat i)"
  proof (cases "i = gate_img w")
    case True
    have "ids_at {L301} i (ws[n := w]) = add_mset (gate_rid w) (ids_at {L301} i ws)"
      using n old new True by (intro ids_at_enter) auto
    then show ?thesis
      using mid turn i k True by (intro exI[of _ "mid @ [gate_rid w]"]) simp
  next
    case False
    then have "unat i \<noteq> unat (gate_img w)" by (simp add: word_unat_eq_iff)
    moreover have "ids_at {L301} i (ws[n := w]) = ids_at {L301} i ws"
      using n old False by (intro ids_at_other) auto
    ultimately show ?thesis using mid by (intro exI[of _ mid]) simp
  qed
qed

lemma inv_fly_pop:
  assumes inv: "inv_fly tr wo live ws" and n: "n < length ws"
    and old: "at_line (ws ! n) \<in> waiting_lines" and new: "at_line w \<notin> waiting_lines"
    and same: "gate_img w = gate_img (ws ! n)" "gate_rid w = gate_rid (ws ! n)"
    and k: "unat (gate_img w) < length wo"
    and turn: "Registered (gate_img w) \<in> set tr \<Longrightarrow>
                 arr_ids (wo ! unat (gate_img w)) = gate_rid w # arr_ids a"
  shows "inv_fly tr (wo[unat (gate_img w) := a]) live (ws[n := w])"
  unfolding inv_fly_def
proof (intro allI impI)
  fix i assume i: "Registered i \<in> set tr"
  with inv have f: "mset (ids_for i live) + ids_at waiting_lines i ws = mset (arr_ids (wo ! unat i))"
    unfolding inv_fly_def by blast
  show "mset (ids_for i live) + ids_at waiting_lines i (ws[n := w]) =
        mset (arr_ids (wo[unat (gate_img w) := a] ! unat i))"
  proof (cases "i = gate_img w")
    case True
    have "add_mset (gate_rid (ws ! n)) (ids_at waiting_lines i (ws[n := w])) = ids_at waiting_lines i ws"
      using n old new True same by (intro ids_at_leave) auto
    then have "ids_at waiting_lines i ws = add_mset (gate_rid w) (ids_at waiting_lines i (ws[n := w]))"
      using same by simp
    then show ?thesis using f turn i k True by simp
  next
    case False
    then have "unat i \<noteq> unat (gate_img w)" by (simp add: word_unat_eq_iff)
    moreover have "ids_at waiting_lines i (ws[n := w]) = ids_at waiting_lines i ws"
      using n new False same by (intro ids_at_other) auto
    ultimately show ?thesis using f by simp
  qed
qed

lemma inv_turn_pop:
  assumes inv: "inv_turn tr wo ws" and sem: "inv_sem tr sems ws" and n: "n < length ws"
    and old: "at_line (ws ! n) = L296" and new: "at_line w \<noteq> L296"
  shows "inv_turn tr (wo[unat (gate_img (ws ! n)) := a]) (ws[n := w])"
  unfolding inv_turn_def
proof (intro allI impI, elim conjE)
  fix k assume k: "k < length (ws[n := w])" "at_line (ws[n := w] ! k) = L296"
    and r: "Registered (gate_img (ws[n := w] ! k)) \<in> set tr"
  have kn: "k \<noteq> n" using k new n by auto
  then have wk: "ws[n := w] ! k = ws ! k" and klen: "k < length ws" using k by simp_all
  have "gate_img (ws ! k) \<noteq> gate_img (ws ! n)"
  proof
    assume e: "gate_img (ws ! k) = gate_img (ws ! n)"
    have "2 \<le> size (ids_at holding_lines (gate_img (ws ! n)) ws)"
      using n klen kn old k(2) e by (intro ids_at_two[of n ws k]) (auto simp: wk holding_lines_def)
    moreover have "size (ids_at holding_lines (gate_img (ws ! n)) ws) \<le> 1"
      using sem r unfolding inv_sem_def wk e by (meson add_leD1)
    ultimately show False by simp
  qed
  then have "unat (gate_img (ws ! k)) \<noteq> unat (gate_img (ws ! n))" by (simp add: word_unat_eq_iff)
  then show "arr_ids (wo[unat (gate_img (ws ! n)) := a] ! unat (gate_img (ws[n := w] ! k))) \<noteq> [] \<and>
        hd (arr_ids (wo[unat (gate_img (ws ! n)) := a] ! unat (gate_img (ws[n := w] ! k)))) =
        gate_rid (ws[n := w] ! k)"
    using inv klen k(2) r unfolding inv_turn_def wk by simp
qed

lemma inv_ord_stamp:
  assumes inv: "inv_ord tr wo ws" and sem: "inv_sem tr sems ws" and n: "n < length ws"
    and old: "at_line (ws ! n) = L301" and new: "at_line w \<noteq> L301"
    and m: "meta_img m = gate_img (ws ! n)" "meta_rid m = gate_rid (ws ! n)"
  shows "inv_ord (tr @ [Started m]) wo (ws[n := w])"
  unfolding inv_ord_def
proof (intro allI impI)
  fix i assume "Registered i \<in> set (tr @ [Started m])"
  then have i: "Registered i \<in> set tr" by simp
  with inv obtain mid where mid: "mset mid = ids_at {L301} i ws"
    "ids_for i (admitted tr) = ids_for i (started tr) @ mid @ arr_ids (wo ! unat i)"
    unfolding inv_ord_def by blast
  show "\<exists>mid. mset mid = ids_at {L301} i (ws[n := w]) \<and>
          ids_for i (admitted (tr @ [Started m])) =
          ids_for i (started (tr @ [Started m])) @ mid @ arr_ids (wo ! unat i)"
  proof (cases "i = gate_img (ws ! n)")
    case True
    have leave: "add_mset (gate_rid (ws ! n)) (ids_at {L301} i (ws[n := w])) = ids_at {L301} i ws"
      using n old new True by (intro ids_at_leave) auto
    have "size (ids_at {L301} i ws) \<le> size (ids_at holding_lines i ws)"
      by (intro size_mset_mono ids_at_mono) (simp add: holding_lines_def)
    also have "\<dots> \<le> 1" using sem i unfolding inv_sem_def by (meson add_leD1)
    finally have "size (ids_at {L301} i (ws[n := w])) = 0"
      unfolding leave[symmetric] by simp
    then have e: "ids_at {L301} i (ws[n := w]) = {#}" by simp
    with leave mid(1) have "mid = [gate_rid (ws ! n)]" by (simp flip: mset_single_iff)
    then show ?thesis
      using mid(2) e True m by (intro exI[of _ "[]"]) (simp add: ids_for_single)
  next
    case False
    have "ids_at {L301} i (ws[n := w]) = ids_at {L301} i ws"
      using n new False by (intro ids_at_other) auto
    then show ?thesis
      using mid False m by (intro exI[of _ mid]) (simp add: ids_for_single)
  qed
qed

lemma inv_stamp_other:
  "inv_reg tr wo sems \<Longrightarrow> inv_reg (tr @ [Started m]) wo sems"
  "inv_sem tr sems ws \<Longrightarrow> inv_sem (tr @ [Started m]) sems ws"
  "inv_loc tr c ws \<Longrightarrow> inv_loc (tr @ [Started m]) c ws"
  "inv_fly tr wo live ws \<Longrightarrow> inv_fly (tr @ [Started m]) wo live ws"
  "inv_turn tr wo ws \<Longrightarrow> inv_turn (tr @ [Started m]) wo ws"
  unfolding inv_reg_def inv_sem_def inv_loc_def inv_fly_def inv_turn_def by simp_all

lemma inv_adm_stamp:
  assumes "inv_adm tr wo live ws" "request m \<in> request ` set (admitted tr)"
  shows "inv_adm (tr @ [Started m]) wo live ws"
  using assms unfolding inv_adm_def by auto

lemma sem_wait_cases:
  assumes "sem_wait k sems = Inr sems'"
  shows "k < length sems" "sems ! k \<noteq> 0" "sems' = sems[k := sems ! k - 1]"
  using assms by (auto simp: sem_wait_def split: if_splits)

lemma sem_post_cases:
  assumes "sem_post k sems = Inr sems'"
  shows "k < length sems" "sems' = sems[k := sems ! k + 1]"
  using assms by (auto simp: sem_post_def split: if_splits)

lemma deref_img_array_cases:
  assumes "deref_img_array s p = Inr a"
  shows "snd p < length (wait_op (srv s))" "a = wait_op (srv s) ! snd p"
  using assms by (auto simp: deref_img_array_def split: if_splits)

lemma gate_inv_I:
  assumes "queue_inv (the_queue sv)" "queue_notify sv = length (queue_live (the_queue sv))"
    "length (wait_op sv) \<le> unat (image_counter sv)" "length sems \<le> unat (image_counter sv)"
    "inv_reg tr (wait_op sv) sems" "inv_adm tr (wait_op sv) (queue_live (the_queue sv)) ws"
    "inv_sem tr sems ws" "inv_loc tr (image_counter sv) ws" "inv_ord tr (wait_op sv) ws"
    "inv_fly tr (wait_op sv) (queue_live (the_queue sv)) ws" "inv_turn tr (wait_op sv) ws"
    "srv s = sv" "img_semaphores s = sems" "gate_workers s = ws"
  shows "gate_inv s tr"
  using assms unfolding gate_inv_def by simp

lemma worker_step_inv:
  fixes s :: "'img gate_state"
  assumes inv: "gate_inv s tr" and run: "worker_step lib n now s = Inr (s', ev)"
  shows "gate_inv s' (tr @ ev)"
proof -
  note I = gate_inv_D[OF inv]
  define ws wo sems live c where "ws = gate_workers s" and "wo = wait_op (srv s)"
    and "sems = img_semaphores s" and "live = queue_live (the_queue (srv s))"
    and "c = image_counter (srv s)"
  define w where "w = ws ! n"
  note defs = ws_def wo_def sems_def live_def c_def
  note J = I[folded defs]
  have n: "n < length ws"
    using run by (auto simp: worker_step_def ws_def split: if_splits)
  have loc: "at_line w \<in> local_lines \<Longrightarrow> img_id_w w = gate_img w"
    "at_line w \<in> pointer_lines \<Longrightarrow> snd (img_array_w w) = unat (gate_img w)"
    "at_line w = L338 \<Longrightarrow> img_id_w w = gate_img w \<or>
       (Registered (img_id_w w) \<notin> set tr \<and> unat (img_id_w w) < unat c)"
    using J(8) n unfolding inv_loc_def w_def by blast+
  have adm_w: "request (req_w w) \<in> request ` set (admitted tr)" if "at_line w \<noteq> L282"
    using J(6) n that unfolding inv_adm_def w_def by blast
  have old: "unat i < length wo \<and> unat i < length sems \<and> arr_inv (wo ! unat i) \<and> unat i < unat c"
    if "Registered i \<in> set tr" for i
    using J(5) J(3) that unfolding inv_reg_def by fastforce
  have wn: "ws ! n = w" by (simp add: w_def)
  note nn = linorder_not_le[THEN iffD2, OF n]
  note run' = run[unfolded worker_step_def Let_def, folded ws_def, simplified nn if_False,
      folded w_def]
  show ?thesis
  proof (cases "at_line w")
    case L282
    from run' L282 obtain m srv1 where g: "get_from_queue (srv s) = Inr (m, srv1)"
      and s': "s' = set_worker n (w\<lparr>at_line := L289, req_w := m,
                                    img_id_w := request.img_id (request m)\<rparr>) (s\<lparr>srv := srv1\<rparr>)"
      and ev: "ev = []"
      by (auto split: sum.splits)
    define w' where "w' = w\<lparr>at_line := L289, req_w := m, img_id_w := request.img_id (request m)\<rparr>"
    note gq = get_from_queue_cases[OF g I(1,2), folded defs]
    have m: "m \<in> set (admitted tr)"
      using J(6) gq(1) unfolding inv_adm_def by auto
    have w': "at_line w' = L289" "gate_img w' = meta_img m" "gate_rid w' = meta_rid m"
      "img_id_w w' = gate_img w'" "request (req_w w') = request m"
      by (simp_all add: w'_def gate_img_def gate_rid_def meta_img_def meta_rid_def)
    have "inv_adm tr wo (queue_live (the_queue srv1)) ws"
      using J(6) gq(1) unfolding inv_adm_def by auto
    then have 6: "inv_adm tr wo (queue_live (the_queue srv1)) (ws[n := w'])"
      using n m w' by (intro inv_adm_update) auto
    have 7: "inv_sem tr sems (ws[n := w'])"
      using J(7) n L282 w' by (intro inv_sem_out) (simp_all add: wn holding_lines_def)
    have 8: "inv_loc tr c (ws[n := w'])"
      using J(8) n w' by (intro inv_loc_update[where c = c]) (simp_all add: pointer_lines_def)
    have 9: "inv_ord tr wo (ws[n := w'])"
      using J(9) n L282 w' by (intro inv_ord_out) (simp_all add: wn)
    have 10: "inv_fly tr wo (queue_live (the_queue srv1)) (ws[n := w'])"
      using J(10)[unfolded gq(1)] n L282 w'
      by (intro inv_fly_dequeue[where m = m]) (simp_all add: wn waiting_lines_def)
    have 11: "inv_turn tr wo (ws[n := w'])"
      using J(11) n w' by (intro inv_turn_update) simp_all
    show ?thesis
      unfolding ev append_Nil2
      by (rule gate_inv_I[where sv = srv1 and sems = sems and ws = "ws[n := w']"])
        (use gq J 6 7 8 9 10 11 in \<open>simp_all add: s' set_worker_def w'_def defs\<close>)
  next
    case L289
    from run' L289 obtain sems' where sw: "sem_wait (unat (img_id_w w)) sems = Inr sems'"
      and s': "s' = set_worker n (w\<lparr>at_line := L290\<rparr>) (s\<lparr>img_semaphores := sems'\<rparr>)"
      and ev: "ev = []"
      by (auto simp: sems_def split: sum.splits)
    define w' where "w' = w\<lparr>at_line := L290\<rparr>"
    have k: "img_id_w w = gate_img w" using loc(1) L289 by (simp add: local_lines_def)
    note sc = sem_wait_cases[OF sw, unfolded k]
    have w': "at_line w' = L290" "gate_img w' = gate_img w" "gate_rid w' = gate_rid w"
      "img_id_w w' = gate_img w'" "request (req_w w') = request (req_w w)"
      by (simp_all add: w'_def gate_img_def gate_rid_def k[unfolded gate_img_def])
    have 5: "inv_reg tr wo sems'"
      using J(5) unfolding inv_reg_def sc(3) by simp
    have 6: "inv_adm tr wo live (ws[n := w'])"
      using J(6) n w' adm_w L289 by (intro inv_adm_update) auto
    have 7: "inv_sem tr sems' (ws[n := w'])"
      unfolding sc(3) w'(2)[symmetric]
      using J(7) n L289 w' sc(1,2)
      by (intro inv_sem_acquire) (simp_all add: wn holding_lines_def)
    have 8: "inv_loc tr c (ws[n := w'])"
      using J(8) n w' by (intro inv_loc_update[where c = c]) (simp_all add: pointer_lines_def)
    have 9: "inv_ord tr wo (ws[n := w'])"
      using J(9) n L289 w' by (intro inv_ord_out) (simp_all add: wn)
    have 10: "inv_fly tr wo live (ws[n := w'])"
      using J(10) n L289 w' by (intro inv_fly_keep) (simp_all add: wn waiting_lines_def)
    have 11: "inv_turn tr wo (ws[n := w'])"
      using J(11) n w' by (intro inv_turn_update) simp_all
    show ?thesis
      unfolding ev append_Nil2
      by (rule gate_inv_I[where sv = "srv s" and sems = sems' and ws = "ws[n := w']"])
        (use J 5 6 7 8 9 10 11 sc in \<open>simp_all add: s' set_worker_def w'_def defs\<close>)
  next
    case L290
    from run' L290 have
      s': "s' = set_worker n (w\<lparr>at_line := L291,
                                  img_array_w := (wait_op_block s, unat (img_id_w w))\<rparr>) s"
      and ev: "ev = []"
      by auto
    define w' where "w' = w\<lparr>at_line := L291, img_array_w := (wait_op_block s, unat (img_id_w w))\<rparr>"
    have k: "img_id_w w = gate_img w" using loc(1) L290 by (simp add: local_lines_def)
    have w': "at_line w' = L291" "gate_img w' = gate_img w" "gate_rid w' = gate_rid w"
      "img_id_w w' = gate_img w'" "request (req_w w') = request (req_w w)"
      "snd (img_array_w w') = unat (gate_img w')"
      by (simp_all add: w'_def gate_img_def gate_rid_def k[unfolded gate_img_def])
    have 6: "inv_adm tr wo live (ws[n := w'])"
      using J(6) n w' adm_w L290 by (intro inv_adm_update) auto
    have 7: "inv_sem tr sems (ws[n := w'])"
      using J(7) n L290 w' by (intro inv_sem_keep) (simp_all add: wn holding_lines_def)
    have 8: "inv_loc tr c (ws[n := w'])"
      using J(8) n w' by (intro inv_loc_update[where c = c]) simp_all
    have 9: "inv_ord tr wo (ws[n := w'])"
      using J(9) n L290 w' by (intro inv_ord_out) (simp_all add: wn)
    have 10: "inv_fly tr wo live (ws[n := w'])"
      using J(10) n L290 w' by (intro inv_fly_keep) (simp_all add: wn waiting_lines_def)
    have 11: "inv_turn tr wo (ws[n := w'])"
      using J(11) n w' by (intro inv_turn_update) simp_all
    show ?thesis
      unfolding ev append_Nil2
      by (rule gate_inv_I[where sv = "srv s" and sems = sems and ws = "ws[n := w']"])
        (use J 6 7 8 9 10 11 in \<open>simp_all add: s' set_worker_def w'_def defs\<close>)
  next
    case L291
    from run' L291 obtain a b where d: "deref_img_array s (img_array_w w) = Inr a"
      and t: "not_my_turn (request.req_id (request (req_w w))) a = Inr b"
      and s': "s' = set_worker n (w\<lparr>at_line := (if b then L292 else L296)\<rparr>) s"
      and ev: "ev = []"
      by (auto split: sum.splits)
    define w' where "w' = w\<lparr>at_line := (if b then L292 else L296)\<rparr>"
    have k: "img_id_w w = gate_img w" and p: "snd (img_array_w w) = unat (gate_img w)"
      using loc(1,2) L291 by (simp_all add: local_lines_def pointer_lines_def)
    have a: "a = wo ! unat (gate_img w)"
      using deref_img_array_cases[OF d] by (simp add: p wo_def)
    have w': "at_line w' = (if b then L292 else L296)" "gate_img w' = gate_img w"
      "gate_rid w' = gate_rid w"
      "img_id_w w' = gate_img w'" "request (req_w w') = request (req_w w)"
      "snd (img_array_w w') = unat (gate_img w')"
      by (simp_all add: w'_def gate_img_def gate_rid_def k[unfolded gate_img_def]
          p[unfolded gate_img_def])
    have 6: "inv_adm tr wo live (ws[n := w'])"
      using J(6) n w' adm_w L291 by (intro inv_adm_update) auto
    have 7: "inv_sem tr sems (ws[n := w'])"
      using J(7) n L291 w' by (intro inv_sem_keep) (simp_all add: wn holding_lines_def)
    have 8: "inv_loc tr c (ws[n := w'])"
      using J(8) n w' by (intro inv_loc_update[where c = c]) simp_all
    have 9: "inv_ord tr wo (ws[n := w'])"
      using J(9) n L291 w' by (intro inv_ord_out) (simp_all add: wn)
    have 10: "inv_fly tr wo live (ws[n := w'])"
      using J(10) n L291 w' by (intro inv_fly_keep) (simp_all add: wn waiting_lines_def)
    have turn: "arr_ids (wo ! unat (gate_img w)) \<noteq> [] \<and> hd (arr_ids (wo ! unat (gate_img w))) = gate_rid w"
      if nb: "\<not> b" and r: "Registered (gate_img w) \<in> set tr"
    proof -
      have "gate_rid w \<in># ids_at waiting_lines (gate_img w) ws"
        using n L291 by (intro ids_at_member[of n ws, unfolded wn]) (simp_all add: waiting_lines_def)
      moreover have "mset (ids_for (gate_img w) live) + ids_at waiting_lines (gate_img w) ws =
                     mset (arr_ids (wo ! unat (gate_img w)))"
        using J(10) r unfolding inv_fly_def by blast
      ultimately have "gate_rid w \<in> set (arr_ids (wo ! unat (gate_img w)))"
        by (metis union_iff set_mset_mset)
      then have ne: "arr_ids (wo ! unat (gate_img w)) \<noteq> []" by auto
      have "arr_inv (wo ! unat (gate_img w))" using old[OF r] by simp
      from not_my_turn_head[OF this ne] t nb a have "hd (arr_ids (wo ! unat (gate_img w))) = gate_rid w"
        by (simp add: gate_rid_def)
      with ne show ?thesis by simp
    qed
    have 11: "inv_turn tr wo (ws[n := w'])"
      using J(11) n w' turn by (intro inv_turn_update) (auto split: if_splits)
    show ?thesis
      unfolding ev append_Nil2
      by (rule gate_inv_I[where sv = "srv s" and sems = sems and ws = "ws[n := w']"])
        (use J 6 7 8 9 10 11 in \<open>simp_all add: s' set_worker_def w'_def defs\<close>)
  next
    case L292
    from run' L292 obtain sems' where sp: "sem_post (unat (img_id_w w)) sems = Inr sems'"
      and s': "s' = set_worker n (w\<lparr>at_line := L293\<rparr>) (s\<lparr>img_semaphores := sems'\<rparr>)"
      and ev: "ev = []"
      by (auto simp: sems_def split: sum.splits)
    define w' where "w' = w\<lparr>at_line := L293\<rparr>"
    have k: "img_id_w w = gate_img w" and p: "snd (img_array_w w) = unat (gate_img w)"
      using loc(1,2) L292 by (simp_all add: local_lines_def pointer_lines_def)
    note sc = sem_post_cases[OF sp, unfolded k]
    have w': "at_line w' = L293" "gate_img w' = gate_img w" "gate_rid w' = gate_rid w"
      "img_id_w w' = gate_img w'" "request (req_w w') = request (req_w w)"
      "snd (img_array_w w') = unat (gate_img w')"
      by (simp_all add: w'_def gate_img_def gate_rid_def k[unfolded gate_img_def]
          p[unfolded gate_img_def])
    have 5: "inv_reg tr wo sems'"
      using J(5) unfolding inv_reg_def sc(2) by simp
    have 6: "inv_adm tr wo live (ws[n := w'])"
      using J(6) n w' adm_w L292 by (intro inv_adm_update) auto
    have 7: "inv_sem tr sems' (ws[n := w'])"
      unfolding sc(2)
      using J(7) n L292 w' sc(1)
      by (intro inv_sem_release) (simp_all add: wn holding_lines_def)
    have 8: "inv_loc tr c (ws[n := w'])"
      using J(8) n w' by (intro inv_loc_update[where c = c]) simp_all
    have 9: "inv_ord tr wo (ws[n := w'])"
      using J(9) n L292 w' by (intro inv_ord_out) (simp_all add: wn)
    have 10: "inv_fly tr wo live (ws[n := w'])"
      using J(10) n L292 w' by (intro inv_fly_keep) (simp_all add: wn waiting_lines_def)
    have 11: "inv_turn tr wo (ws[n := w'])"
      using J(11) n w' by (intro inv_turn_update) simp_all
    show ?thesis
      unfolding ev append_Nil2
      by (rule gate_inv_I[where sv = "srv s" and sems = sems' and ws = "ws[n := w']"])
        (use J 5 6 7 8 9 10 11 sc in \<open>simp_all add: s' set_worker_def w'_def defs\<close>)
  next
    case L293
    from run' L293 obtain sems' where sw: "sem_wait (unat (img_id_w w)) sems = Inr sems'"
      and s': "s' = set_worker n (w\<lparr>at_line := L291\<rparr>) (s\<lparr>img_semaphores := sems'\<rparr>)"
      and ev: "ev = []"
      by (auto simp: sems_def split: sum.splits)
    define w' where "w' = w\<lparr>at_line := L291\<rparr>"
    have k: "img_id_w w = gate_img w" and p: "snd (img_array_w w) = unat (gate_img w)"
      using loc(1,2) L293 by (simp_all add: local_lines_def pointer_lines_def)
    note sc = sem_wait_cases[OF sw, unfolded k]
    have w': "at_line w' = L291" "gate_img w' = gate_img w" "gate_rid w' = gate_rid w"
      "img_id_w w' = gate_img w'" "request (req_w w') = request (req_w w)"
      "snd (img_array_w w') = unat (gate_img w')"
      by (simp_all add: w'_def gate_img_def gate_rid_def k[unfolded gate_img_def]
          p[unfolded gate_img_def])
    have 5: "inv_reg tr wo sems'"
      using J(5) unfolding inv_reg_def sc(3) by simp
    have 6: "inv_adm tr wo live (ws[n := w'])"
      using J(6) n w' adm_w L293 by (intro inv_adm_update) auto
    have 7: "inv_sem tr sems' (ws[n := w'])"
      unfolding sc(3) w'(2)[symmetric]
      using J(7) n L293 w' sc(1,2)
      by (intro inv_sem_acquire) (simp_all add: wn holding_lines_def)
    have 8: "inv_loc tr c (ws[n := w'])"
      using J(8) n w' by (intro inv_loc_update[where c = c]) simp_all
    have 9: "inv_ord tr wo (ws[n := w'])"
      using J(9) n L293 w' by (intro inv_ord_out) (simp_all add: wn)
    have 10: "inv_fly tr wo live (ws[n := w'])"
      using J(10) n L293 w' by (intro inv_fly_keep) (simp_all add: wn waiting_lines_def)
    have 11: "inv_turn tr wo (ws[n := w'])"
      using J(11) n w' by (intro inv_turn_update) simp_all
    show ?thesis
      unfolding ev append_Nil2
      by (rule gate_inv_I[where sv = "srv s" and sems = sems' and ws = "ws[n := w']"])
        (use J 5 6 7 8 9 10 11 sc in \<open>simp_all add: s' set_worker_def w'_def defs\<close>)
  next
    case L296
    from run' L296 obtain a a1 where d: "deref_img_array s (img_array_w w) = Inr a"
      and pop: "img_arr_pop a = Inr a1"
      and s': "s' = set_worker n (w\<lparr>at_line := L301\<rparr>)
                      (s\<lparr>srv := (srv s)\<lparr>wait_op := wo[snd (img_array_w w) := a1]\<rparr>\<rparr>)"
      and ev: "ev = []"
      by (auto simp: wo_def split: sum.splits)
    define w' where "w' = w\<lparr>at_line := L301\<rparr>"
    define k where "k = unat (gate_img w)"
    have ki: "img_id_w w = gate_img w" and p: "snd (img_array_w w) = k"
      using loc(1,2) L296 by (simp_all add: local_lines_def pointer_lines_def k_def)
    have a: "a = wo ! k" and klen: "k < length wo"
      using deref_img_array_cases[OF d] by (simp_all add: p wo_def)
    have w': "at_line w' = L301" "gate_img w' = gate_img w" "gate_rid w' = gate_rid w"
      "img_id_w w' = gate_img w'" "request (req_w w') = request (req_w w)"
      by (simp_all add: w'_def gate_img_def gate_rid_def ki[unfolded gate_img_def])
    have turn: "arr_ids (wo ! k) = gate_rid w # arr_ids a1" and ai: "arr_inv a1"
      if r: "Registered (gate_img w) \<in> set tr"
    proof -
      have "arr_ids (wo ! k) \<noteq> []" "hd (arr_ids (wo ! k)) = gate_rid w"
        using J(11) n L296 r unfolding inv_turn_def wn[symmetric] k_def by blast+
      moreover have inv_a: "arr_inv (wo ! k)" using old[OF r] by (simp add: k_def)
      moreover note pops = img_arr_pop_ids[OF inv_a pop[unfolded a]]
      ultimately show "arr_ids (wo ! k) = gate_rid w # arr_ids a1"
        by (metis list.collapse)
      show "arr_inv a1" by (rule pops)
    qed
    have 5: "inv_reg tr (wo[k := a1]) sems"
    proof (rule inv_reg_cell[OF J(5) klen])
      fix i assume i: "Registered i \<in> set tr" "unat i = k"
      then have "i = gate_img w" by (simp add: k_def word_unat_eq_iff)
      with i show "arr_inv a1" using ai by simp
    qed
    have 6: "inv_adm tr (wo[k := a1]) live (ws[n := w'])"
      using J(6) n w' adm_w L296 by (intro inv_adm_update inv_adm_cell) auto
    have 7: "inv_sem tr sems (ws[n := w'])"
      using J(7) n L296 w' by (intro inv_sem_keep) (simp_all add: wn holding_lines_def)
    have 8: "inv_loc tr c (ws[n := w'])"
      using J(8) n w' by (intro inv_loc_update[where c = c]) (simp_all add: pointer_lines_def)
    have 9: "inv_ord tr (wo[k := a1]) (ws[n := w'])"
      unfolding k_def w'(2)[symmetric]
      using J(9) n L296 w' klen turn
      by (intro inv_ord_pop) (simp_all add: wn k_def)
    have 10: "inv_fly tr (wo[k := a1]) live (ws[n := w'])"
      unfolding k_def w'(2)[symmetric]
      using J(10) n L296 w' klen turn
      by (intro inv_fly_pop) (simp_all add: wn k_def waiting_lines_def)
    have 11: "inv_turn tr (wo[k := a1]) (ws[n := w'])"
      unfolding k_def wn[symmetric]
      using J(11) J(7) n L296 w'
      by (intro inv_turn_pop[where sems = sems]) (simp_all add: wn)
    show ?thesis
      unfolding ev append_Nil2
      by (rule gate_inv_I[where sv = "(srv s)\<lparr>wait_op := wo[k := a1]\<rparr>" and sems = sems
            and ws = "ws[n := w']"])
        (use J 5 6 7 8 9 10 11 in \<open>simp_all add: s' set_worker_def w'_def defs p\<close>)
  next
    case L301
    define m where "m = (req_w w)\<lparr>start_timestamp := now\<rparr>"
    from run' L301 have
      s': "s' = set_worker n (w\<lparr>at_line := L304, req_w := m\<rparr>) s"
      and ev: "ev = [Started m]"
      by (auto simp: m_def)
    define w' where "w' = w\<lparr>at_line := L304, req_w := m\<rparr>"
    have ki: "img_id_w w = gate_img w"
      using loc(1) L301 by (simp_all add: local_lines_def)
    have w': "at_line w' = L304" "gate_img w' = gate_img w" "gate_rid w' = gate_rid w"
      "img_id_w w' = gate_img w'" "request (req_w w') = request (req_w w)"
      "meta_img m = gate_img w" "meta_rid m = gate_rid w" "request m = request (req_w w)"
      by (simp_all add: w'_def m_def gate_img_def gate_rid_def meta_img_def meta_rid_def
          ki[unfolded gate_img_def])
    have 5: "inv_reg (tr @ ev) wo sems"
      unfolding ev using J(5) by (rule inv_stamp_other)
    have "inv_adm tr wo live (ws[n := w'])"
      using J(6) n w' adm_w L301 by (intro inv_adm_update) auto
    then have 6: "inv_adm (tr @ ev) wo live (ws[n := w'])"
      unfolding ev using adm_w L301 w' by (intro inv_adm_stamp) auto
    have "inv_sem tr sems (ws[n := w'])"
      using J(7) n L301 w' by (intro inv_sem_keep) (simp_all add: wn holding_lines_def)
    then have 7: "inv_sem (tr @ ev) sems (ws[n := w'])"
      unfolding ev by (rule inv_stamp_other)
    have "inv_loc tr c (ws[n := w'])"
      using J(8) n w' by (intro inv_loc_update[where c = c]) (simp_all add: pointer_lines_def)
    then have 8: "inv_loc (tr @ ev) c (ws[n := w'])"
      unfolding ev by (rule inv_stamp_other)
    have 9: "inv_ord (tr @ ev) wo (ws[n := w'])"
      unfolding ev
      using J(9) J(7) n L301 w'
      by (intro inv_ord_stamp[where sems = sems]) (simp_all add: wn)
    have "inv_fly tr wo live (ws[n := w'])"
      using J(10) n L301 w' by (intro inv_fly_out) (simp_all add: wn waiting_lines_def)
    then have 10: "inv_fly (tr @ ev) wo live (ws[n := w'])"
      unfolding ev by (rule inv_stamp_other)
    have "inv_turn tr wo (ws[n := w'])"
      using J(11) n w' by (intro inv_turn_update) simp_all
    then have 11: "inv_turn (tr @ ev) wo (ws[n := w'])"
      unfolding ev by (rule inv_stamp_other)
    show ?thesis
      by (rule gate_inv_I[where sv = "srv s" and sems = sems and ws = "ws[n := w']"])
        (use J 5 6 7 8 9 10 11 in \<open>simp_all add: s' set_worker_def w'_def defs\<close>)
  next
    case L304
    from run' L304 obtain im where
      s': "s' = set_worker n (w\<lparr>at_line := L326, img_w := Some im\<rparr>) s"
      and ev: "ev = []"
      by (auto split: if_splits option.splits)
    define w' where "w' = w\<lparr>at_line := L326, img_w := Some im\<rparr>"
    have ki: "img_id_w w = gate_img w"
      using loc(1) L304 by (simp_all add: local_lines_def)
    have w': "at_line w' = L326" "gate_img w' = gate_img w" "gate_rid w' = gate_rid w"
      "img_id_w w' = gate_img w'" "request (req_w w') = request (req_w w)"
      by (simp_all add: w'_def gate_img_def gate_rid_def ki[unfolded gate_img_def])
    have 6: "inv_adm tr wo live (ws[n := w'])"
      using J(6) n w' adm_w L304 by (intro inv_adm_update) auto
    have 7: "inv_sem tr sems (ws[n := w'])"
      using J(7) n L304 w' by (intro inv_sem_keep) (simp_all add: wn holding_lines_def)
    have 8: "inv_loc tr c (ws[n := w'])"
      using J(8) n w' by (intro inv_loc_update[where c = c]) (simp_all add: pointer_lines_def)
    have 9: "inv_ord tr wo (ws[n := w'])"
      using J(9) n L304 w' by (intro inv_ord_out) (simp_all add: wn)
    have 10: "inv_fly tr wo live (ws[n := w'])"
      using J(10) n L304 w' by (intro inv_fly_out) (simp_all add: wn waiting_lines_def)
    have 11: "inv_turn tr wo (ws[n := w'])"
      using J(11) n w' by (intro inv_turn_update) simp_all
    show ?thesis
      unfolding ev append_Nil2
      by (rule gate_inv_I[where sv = "srv s" and sems = sems and ws = "ws[n := w']"])
        (use J 6 7 8 9 10 11 in \<open>simp_all add: s' set_worker_def w'_def defs\<close>)
  next
    case L326
    from run' L326 obtain im out_id srv1 where
      pub: "worker_publish (request (req_w w)) im (srv s) = Inr (out_id, srv1)"
      and s': "s' = set_worker n (w\<lparr>at_line := L338, img_id_w := out_id\<rparr>) (s\<lparr>srv := srv1\<rparr>)"
      and ev: "ev = []"
      by (auto split: option.splits sum.splits)
    define w' where "w' = w\<lparr>at_line := L338, img_id_w := out_id\<rparr>"
    note pc = worker_publish_cases[OF pub, folded defs]
    have w': "at_line w' = L338" "gate_img w' = gate_img w" "gate_rid w' = gate_rid w"
      "img_id_w w' = out_id" "request (req_w w') = request (req_w w)"
      by (simp_all add: w'_def gate_img_def gate_rid_def)
    have cle: "unat c \<le> unat (image_counter srv1)"
      using pc(4) by (auto simp: c_def)
    have out: "out_id = gate_img w \<or> (Registered out_id \<notin> set tr \<and> unat out_id < unat (image_counter srv1))"
      using pc(4) old by (auto simp: gate_img_def c_def)
    have 6: "inv_adm tr wo live (ws[n := w'])"
      using J(6) n w' adm_w L326 by (intro inv_adm_update) auto
    have 7: "inv_sem tr sems (ws[n := w'])"
      using J(7) n L326 w' by (intro inv_sem_keep) (simp_all add: wn holding_lines_def)
    have 8: "inv_loc tr (image_counter srv1) (ws[n := w'])"
      using J(8) n w' cle out
      by (intro inv_loc_update[where c = c]) (simp_all add: pointer_lines_def local_lines_def)
    have 9: "inv_ord tr wo (ws[n := w'])"
      using J(9) n L326 w' by (intro inv_ord_out) (simp_all add: wn)
    have 10: "inv_fly tr wo live (ws[n := w'])"
      using J(10) n L326 w' by (intro inv_fly_out) (simp_all add: wn waiting_lines_def)
    have 11: "inv_turn tr wo (ws[n := w'])"
      using J(11) n w' by (intro inv_turn_update) simp_all
    show ?thesis
      unfolding ev append_Nil2
      by (rule gate_inv_I[where sv = srv1 and sems = sems and ws = "ws[n := w']"])
        (use J pc(1,2,3) cle 6 7 8 9 10 11 in \<open>simp_all add: s' set_worker_def w'_def defs\<close>)
  next
    case L338
    from run' L338 obtain sems' where sp: "sem_post (unat (img_id_w w)) sems = Inr sems'"
      and s': "s' = set_worker n (w\<lparr>at_line := L340\<rparr>) (s\<lparr>img_semaphores := sems'\<rparr>)"
      and ev: "ev = []"
      by (auto simp: sems_def split: sum.splits)
    define w' where "w' = w\<lparr>at_line := L340\<rparr>"
    note sc = sem_post_cases[OF sp]
    have w': "at_line w' = L340" "gate_img w' = gate_img w" "gate_rid w' = gate_rid w"
      "request (req_w w') = request (req_w w)"
      by (simp_all add: w'_def gate_img_def gate_rid_def)
    have 5: "inv_reg tr wo sems'"
      using J(5) unfolding inv_reg_def sc(2) by simp
    have 6: "inv_adm tr wo live (ws[n := w'])"
      using J(6) n w' adm_w L338 by (intro inv_adm_update) auto
    have 7: "inv_sem tr sems' (ws[n := w'])"
      unfolding sc(2)
      using J(7) n L338 w' sc(1) loc(3)
      by (intro inv_sem_release) (auto simp: wn holding_lines_def)
    have 8: "inv_loc tr c (ws[n := w'])"
      using J(8) n w' by (intro inv_loc_update[where c = c]) (simp_all add: pointer_lines_def local_lines_def)
    have 9: "inv_ord tr wo (ws[n := w'])"
      using J(9) n L338 w' by (intro inv_ord_out) (simp_all add: wn)
    have 10: "inv_fly tr wo live (ws[n := w'])"
      using J(10) n L338 w' by (intro inv_fly_out) (simp_all add: wn waiting_lines_def)
    have 11: "inv_turn tr wo (ws[n := w'])"
      using J(11) n w' by (intro inv_turn_update) simp_all
    show ?thesis
      unfolding ev append_Nil2
      by (rule gate_inv_I[where sv = "srv s" and sems = sems' and ws = "ws[n := w']"])
        (use J 5 6 7 8 9 10 11 sc in \<open>simp_all add: s' set_worker_def w'_def defs\<close>)
  next
    case L340
    from run' L340 have
      s': "s' = set_worker n (w\<lparr>at_line := L282,
                                  req_w := (req_w w)\<lparr>completion_timestamp := now\<rparr>\<rparr>) s"
      and ev: "ev = []"
      by auto
    define w' where "w' = w\<lparr>at_line := L282, req_w := (req_w w)\<lparr>completion_timestamp := now\<rparr>\<rparr>"
    have w': "at_line w' = L282" "gate_img w' = gate_img w" "gate_rid w' = gate_rid w"
      by (simp_all add: w'_def gate_img_def gate_rid_def)
    have 6: "inv_adm tr wo live (ws[n := w'])"
      using J(6) n w' by (intro inv_adm_update) auto
    have 7: "inv_sem tr sems (ws[n := w'])"
      using J(7) n L340 w' by (intro inv_sem_out) (simp_all add: wn holding_lines_def)
    have 8: "inv_loc tr c (ws[n := w'])"
      using J(8) n w' by (intro inv_loc_update[where c = c]) (simp_all add: pointer_lines_def local_lines_def)
    have 9: "inv_ord tr wo (ws[n := w'])"
      using J(9) n L340 w' by (intro inv_ord_out) (simp_all add: wn)
    have 10: "inv_fly tr wo live (ws[n := w'])"
      using J(10) n L340 w' by (intro inv_fly_out) (simp_all add: wn waiting_lines_def)
    have 11: "inv_turn tr wo (ws[n := w'])"
      using J(11) n w' by (intro inv_turn_update) simp_all
    show ?thesis
      unfolding ev append_Nil2
      by (rule gate_inv_I[where sv = "srv s" and sems = sems and ws = "ws[n := w']"])
        (use J 6 7 8 9 10 11 in \<open>simp_all add: s' set_worker_def w'_def defs\<close>)
  qed
qed

lemma gate_dispatch_reply_inv:
  fixes s :: "'img gate_state"
  assumes inv: "gate_inv s tr" and run: "gate_dispatch io g moved s = Inr (s', ev)"
    and ln: "conn_line s \<noteq> L535"
  shows "gate_inv s' (tr @ ev)"
proof (cases "conn_line s")
  case L535
  with ln show ?thesis by simp
next
  case L261
  with run have "ev = []"
    and "s' = s\<lparr>srv := register_new_image_reply (request (conn_req s)) (srv s),
                  conn_line := L550\<rparr>"
    by (simp_all add: gate_dispatch_def)
  then show ?thesis
    using inv by (simp add: gate_inv_def register_new_image_reply_def)
next
  case L550
  with run obtain rq srv1 where
    t: "handle_register_trace (length (gate_workers s)) (clk_completion io) (conn_req s) (srv s)
          = Inr (rq, srv1)"
    and s': "s' = s\<lparr>srv := srv1, conn_req := rq, conn_line := L535\<rparr>" and ev: "ev = []"
    by (auto simp: gate_dispatch_def split: sum.splits)
  from handle_register_trace_cases[OF t] show ?thesis
    using inv by (simp add: gate_inv_def s' ev)
qed

lemma gate_dispatch_inv:
  fixes s :: "'img gate_state"
  assumes "gate_inv s tr" and "gate_dispatch io g moved s = Inr (s', ev)"
  shows "gate_inv s' (tr @ ev)"
proof (cases "conn_line s = L535")
  case False
  with assms show ?thesis by (rule gate_dispatch_reply_inv)
next
  case True
  with assms show ?thesis
    by (cases "img_op (rx_bytes io) = IMG_REGISTER")
      (blast intro: gate_dispatch_register_inv gate_dispatch_queue_inv)+
qed

lemma gate_step_inv:
  "gate_inv s tr \<Longrightarrow> gate_step lib mv s = Inr (s', ev) \<Longrightarrow> gate_inv s' (tr @ ev)"
  by (cases mv) (auto simp: gate_step_def intro: gate_dispatch_inv worker_step_inv)

lemma gate_run_inv:
  "gate_inv s tr0 \<Longrightarrow> gate_run lib sched s = Inr (s', tr) \<Longrightarrow> gate_inv s' (tr0 @ tr)"
proof (induction sched arbitrary: s tr0 tr)
  case Nil
  then show ?case by simp
next
  case (Cons mv sched)
  from Cons.prems(2) obtain s1 ev tr1 where
    st: "gate_step lib mv s = Inr (s1, ev)" and rn: "gate_run lib sched s1 = Inr (s', tr1)"
    and tr: "tr = ev @ tr1"
    by (auto split: sum.splits)
  from Cons.IH[OF gate_step_inv[OF Cons.prems(1) st] rn] show ?case by (simp add: tr)
qed

lemma filter_nth_order:
  assumes "i < j" "j < length xs" "P (xs ! i)" "P (xs ! j)"
  shows "\<exists>i' j'. i' < j' \<and> j' < length (filter P xs) \<and>
           filter P xs ! i' = xs ! i \<and> filter P xs ! j' = xs ! j"
proof -
  define ys where "ys = filter P (take j xs)"
  have xs: "xs = take j xs @ xs ! j # drop (Suc j) xs"
    using assms(2) by (simp add: id_take_nth_drop)
  have f: "filter P xs = ys @ xs ! j # filter P (drop (Suc j) xs)"
    by (subst xs) (simp add: ys_def assms(4))
  have "xs ! i \<in> set (take j xs)"
    using assms(1,2) by (auto simp: in_set_conv_nth intro!: exI[of _ i])
  then have "xs ! i \<in> set ys" using assms(3) by (simp add: ys_def)
  then obtain i' where i': "i' < length ys" "ys ! i' = xs ! i"
    by (auto simp: in_set_conv_nth)
  show ?thesis
    by (intro exI[of _ i'] exI[of _ "length ys"]) (use i' in \<open>simp add: f nth_append\<close>)
qed

lemma gate_order:
  assumes inv: "gate_inv s tr"
    and reg: "Registered (meta_img m1) \<in> set tr"
    and uniq: "distinct (ids_for (meta_img m1) (admitted tr))"
    and clock: "sorted_wrt ts_lt (map start_timestamp (started tr))"
    and a: "a1 < a2" "a2 < length (admitted tr)" "admitted tr ! a1 = m1" "admitted tr ! a2 = m2"
    and same: "meta_img m2 = meta_img m1"
    and st2: "m2' \<in> set (started tr)" "request m2' = request m2"
  shows "\<exists>m1'\<in>set (started tr). request m1' = request m1 \<and>
           ts_lt (start_timestamp m1') (start_timestamp m2')"
proof -
  define i where "i = meta_img m1"
  define A S where "A = filter (\<lambda>m. meta_img m = i) (admitted tr)"
    and "S = filter (\<lambda>m. meta_img m = i) (started tr)"
  note I = gate_inv_D[OF inv]
  from I(9) reg obtain mid where
    ord: "map meta_rid A = map meta_rid S @ mid @ arr_ids (wait_op (srv s) ! unat i)"
    unfolding inv_ord_def ids_for_def A_def S_def i_def by blast
  have dist: "distinct (map meta_rid A)"
    using uniq by (simp add: ids_for_def A_def i_def)
  have adm: "\<And>m. m \<in> set (started tr) \<Longrightarrow> request m \<in> request ` set (admitted tr)"
    using I(6) unfolding inv_adm_def by blast
  have lenS: "length S \<le> length A"
    using arg_cong[OF ord, of length] by simp
  have pre: "meta_rid (S ! p) = meta_rid (A ! p)" if "p < length S" for p
    using arg_cong[OF ord, of "\<lambda>xs. xs ! p"] that lenS by (simp add: nth_append)
  from filter_nth_order[of a1 a2 "admitted tr" "\<lambda>m. meta_img m = i"] a same
  obtain p1 p2 where p: "p1 < p2" "p2 < length A" "A ! p1 = m1" "A ! p2 = m2"
    by (auto simp: A_def i_def)
  have "m2' \<in> set S"
    using st2 same by (simp add: S_def i_def meta_img_def)
  then obtain q where q: "q < length S" "S ! q = m2'"
    by (auto simp: in_set_conv_nth)
  have "meta_rid (A ! q) = meta_rid (A ! p2)"
    using pre[OF q(1)] q(2) p(4) st2(2) by (simp add: meta_rid_def)
  then have e: "map meta_rid A ! q = map meta_rid A ! p2"
    using q(1) lenS p(2) by simp
  have "q < length (map meta_rid A)" "p2 < length (map meta_rid A)"
    using q(1) lenS p(2) by simp_all
  from nth_eq_iff_index_eq[OF dist this] e have qp: "q = p2" by blast
  have p1S: "p1 < length S" using p(1) q(1) qp by simp
  define m1' where "m1' = S ! p1"
  have m1'S: "m1' \<in> set S" using p1S by (simp add: m1'_def)
  then have m1'st: "m1' \<in> set (started tr)" and m1'i: "meta_img m1' = i"
    by (simp_all add: S_def)
  from adm[OF m1'st] obtain m where m: "m \<in> set (admitted tr)" "request m = request m1'"
    by auto
  then have "m \<in> set A" using m1'i by (simp add: A_def meta_img_def)
  then obtain r where r: "r < length A" "A ! r = m" by (auto simp: in_set_conv_nth)
  have "meta_rid (A ! r) = meta_rid (A ! p1)"
    using pre[OF p1S] r(2) m(2) by (simp add: meta_rid_def m1'_def)
  then have e: "map meta_rid A ! r = map meta_rid A ! p1"
    using r(1) p(1,2) by simp
  have "r < length (map meta_rid A)" "p1 < length (map meta_rid A)"
    using r(1) p(1,2) by simp_all
  from nth_eq_iff_index_eq[OF dist this] e have "r = p1" by blast
  then have req: "request m1' = request m1" using r(2) m(2) p(3) by simp
  have "sorted_wrt (\<lambda>x y. ts_lt (start_timestamp x) (start_timestamp y)) (started tr)"
    using clock by (simp add: sorted_wrt_map)
  then have "sorted_wrt (\<lambda>x y. ts_lt (start_timestamp x) (start_timestamp y)) S"
    unfolding S_def by (rule sorted_wrt_filter)
  then have "ts_lt (start_timestamp (S ! p1)) (start_timestamp (S ! p2))"
    using p(1) q(1) qp by (intro sorted_wrt_nth_less) simp_all
  then have "ts_lt (start_timestamp m1') (start_timestamp m2')"
    using q(2) qp by (simp add: m1'_def)
  with m1'st req show ?thesis by blast
qed

text \<open>
  Claim C1, as amended.  In a run of the dispatcher and the workers from the start of the
  connection, take two requests admitted for the same image, an image a REGISTER request
  created, the first admitted before the second, and let the request ids admitted for that
  image be distinct.  If a worker has stamped the start of the second request, a worker has
  stamped the start of the first; and when the clock read strictly more at each later stamp,
  the start timestamp of the first is strictly less than that of the second.
\<close>

theorem turn_gate_order:
  fixes s :: "'img gate_state"
  assumes run: "gate_run lib sched (gate_init mem cp req0 w0) = Inr (s, tr)"
    and q: "0 < queue_size cp" "queue_size cp < 2 ^ 64" "length mem = queue_size cp"
    and reg: "Registered (meta_img m1) \<in> set tr"
    and uniq: "distinct (ids_for (meta_img m1) (admitted tr))"
    and clock: "sorted_wrt ts_lt (map start_timestamp (started tr))"
    and a: "a1 < a2" "a2 < length (admitted tr)" "admitted tr ! a1 = m1" "admitted tr ! a2 = m2"
    and same: "meta_img m2 = meta_img m1"
    and st2: "m2' \<in> set (started tr)" "request m2' = request m2"
  shows "\<exists>m1'\<in>set (started tr). request m1' = request m1 \<and>
           ts_lt (start_timestamp m1') (start_timestamp m2')"
proof -
  have "gate_inv s ([] @ tr)"
    using gate_inv_init[OF q] run by (rule gate_run_inv)
  then have "gate_inv s tr" by simp
  then show ?thesis
    using reg uniq clock a same st2 by (rule gate_order)
qed

lemmas ex_gate_defs =
  ex_gate_init_def gate_init_def gate_step_def gate_dispatch_def worker_step_def
  handle_request_def register_new_image_def register_new_image_locked_def
  register_new_image_reply_def handle_register_trace_def add_to_queue_def get_from_queue_def
  ex_register_def ex_go_def ex_send_def ex_io_def ex_request_def ex_meta_def ex_clock_def ex_arrival_def queue_init_def Let_def
  realloc_cells_def dump_queue_status_def size_t_sub_def size_t_wrap_def img_arr_push_def
  set_worker_def sem_wait_def sem_post_def deref_img_array_def not_my_turn_def img_arr_pop_def
  worker_publish_def apply_img_op_def ex_lib_def ts0_def

lemma ex_turn_run:
  "map_sum id snd (gate_run ex_lib ex_turn_schedule ex_gate_init) =
     Inr [Registered 0,
          Admitted (ex_arrival (ex_request 7 IMG_BLUR 1 0) 2),
          Admitted (ex_arrival (ex_request 8 IMG_RETRIEVE 0 0) 3),
          Started ((ex_arrival (ex_request 7 IMG_BLUR 1 0) 2)\<lparr>start_timestamp := ex_clock 14\<rparr>),
          Started ((ex_arrival (ex_request 8 IMG_RETRIEVE 0 0) 3)\<lparr>start_timestamp := ex_clock 21\<rparr>)]"
  by (simp add: ex_turn_schedule_def ex_gate_defs)

theorem turn_gate_order_witness:
  "\<exists>m1'\<in>set (started
       [Registered 0,
        Admitted (ex_arrival (ex_request 7 IMG_BLUR 1 0) 2),
        Admitted (ex_arrival (ex_request 8 IMG_RETRIEVE 0 0) 3),
        Started ((ex_arrival (ex_request 7 IMG_BLUR 1 0) 2)\<lparr>start_timestamp := ex_clock 14\<rparr>),
        Started ((ex_arrival (ex_request 8 IMG_RETRIEVE 0 0) 3)\<lparr>start_timestamp := ex_clock 21\<rparr>)]).
     request m1' = ex_request 7 IMG_BLUR 1 0 \<and> ts_lt (start_timestamp m1') (ex_clock 21)"
proof -
  let ?m1 = "ex_arrival (ex_request 7 IMG_BLUR 1 0) 2"
  let ?m2 = "ex_arrival (ex_request 8 IMG_RETRIEVE 0 0) 3"
  let ?tr = "[Registered 0, Admitted ?m1, Admitted ?m2,
              Started (?m1\<lparr>start_timestamp := ex_clock 14\<rparr>),
              Started (?m2\<lparr>start_timestamp := ex_clock 21\<rparr>)]"
  let ?cp = "\<lparr>queue_size = 2, workers = 2, queue_policy = QUEUE_FIFO\<rparr>"
  let ?mem = "[ex_meta (ex_request 0 IMG_OTHER 0 0), ex_meta (ex_request 0 IMG_OTHER 0 0)]"
  let ?w0 = "\<lparr>at_line = L282, req_w = ex_meta (ex_request 0 IMG_OTHER 0 0), img_id_w = 0,
             img_array_w = (0, 0), img_w = None :: nat option\<rparr>"
  obtain s where run: "gate_run ex_lib ex_turn_schedule
      (gate_init ?mem ?cp (ex_meta (ex_request 0 IMG_OTHER 0 0)) ?w0) = Inr (s, ?tr)"
    using ex_turn_run
    by (cases "gate_run ex_lib ex_turn_schedule ex_gate_init") (auto simp: ex_gate_init_def)
  have hyp: "0 < queue_size ?cp \<and> queue_size ?cp < 2 ^ 64 \<and> length ?mem = queue_size ?cp \<and>
      Registered (meta_img ?m1) \<in> set ?tr \<and> distinct (ids_for (meta_img ?m1) (admitted ?tr)) \<and>
      sorted_wrt ts_lt (map start_timestamp (started ?tr)) \<and>
      (0::nat) < 1 \<and> 1 < length (admitted ?tr) \<and> admitted ?tr ! 0 = ?m1 \<and> admitted ?tr ! 1 = ?m2 \<and>
      meta_img ?m2 = meta_img ?m1 \<and>
      ?m2\<lparr>start_timestamp := ex_clock 21\<rparr> \<in> set (started ?tr) \<and>
      request (?m2\<lparr>start_timestamp := ex_clock 21\<rparr>) = request ?m2"
    by (simp add: meta_img_def meta_rid_def ids_for_def ex_arrival_def ex_meta_def ex_request_def
        ex_clock_def ts_lt_def)
  from turn_gate_order[OF run, where ?m1.0 = ?m1 and ?m2.0 = ?m2 and ?a1.0 = 0 and ?a2.0 = 1
      and m2' = "?m2\<lparr>start_timestamp := ex_clock 21\<rparr>"] hyp
  show ?thesis
    by (simp add: ex_arrival_def ex_meta_def)
qed

text \<open>
  Two requests for image 0 with the same request id 7: the RETRIEVE, admitted second, starts
  at second 10, the BLUR, admitted first, at second 18.
\<close>

theorem turn_gate_order_counterexample:
  "map_sum id snd (gate_run ex_lib ex_dup_schedule ex_gate_init) =
     Inr [Registered 0,
          Admitted (ex_arrival (ex_request 7 IMG_BLUR 1 0) 2),
          Admitted (ex_arrival (ex_request 7 IMG_RETRIEVE 0 0) 3),
          Started ((ex_arrival (ex_request 7 IMG_RETRIEVE 0 0) 3)\<lparr>start_timestamp := ex_clock 10\<rparr>),
          Started ((ex_arrival (ex_request 7 IMG_BLUR 1 0) 2)\<lparr>start_timestamp := ex_clock 18\<rparr>)] \<and>
   ts_lt (ex_clock 10) (ex_clock 18)"
  by (simp add: ex_dup_schedule_def ex_gate_defs ts_lt_def)

subsection \<open>The image id of a registration response\<close>

text \<open>
  Claim C6.  The response to a REGISTER carries the id under which the image was stored.
  It does not in this run: image 10 is registered as image 0 and a BLUR of it that does not
  overwrite is admitted; the worker reaches line 327 when a second registration arrives,
  stores image 20 in slot 1 and posts \<^verbatim>\<open>arr_mutex\<close> at line 259; the worker then
  stores its result in slot 2, and line 263 answers the registration with
  \<^verbatim>\<open>image_counter - 1\<close>, which is 2 by now: the id of the worker's result, not of the
  image registered.  The worker's next statement, line 338, posts the semaphore of image 2,
  a cell that \<^verbatim>\<open>img_semaphores\<close> does not have.
\<close>

theorem register_response_races_append:
  "map_sum id (images \<circ> srv \<circ> fst) (gate_run ex_lib ex_race_schedule ex_gate_init) =
     Inr [Some 10, Some 20, Some 12] \<and>
   map_sum id (sock \<circ> srv \<circ> fst) (gate_run ex_lib ex_race_schedule ex_gate_init) =
     Inr [Header \<lparr>response.req_id = 1, response.img_id = 0, ack = RESP_COMPLETED\<rparr>,
          Header \<lparr>response.req_id = 3, response.img_id = 2, ack = RESP_COMPLETED\<rparr>] \<and>
   map_sum id ((\<lambda>s. img_id_w (gate_workers s ! 0)) \<circ> fst)
       (gate_run ex_lib ex_race_schedule ex_gate_init) = Inr 2 \<and>
   map_sum id (length \<circ> img_semaphores \<circ> fst)
       (gate_run ex_lib ex_race_schedule ex_gate_init) = Inr 2 \<and>
   gate_run ex_lib (ex_race_schedule @ [Work 0 (ex_clock 12)]) ex_gate_init = Inl OutOfBounds"
  by (simp add: ex_race_schedule_def ex_gate_defs)

end
